theory Spec2Isabelle
  imports Complex_Main "HOL-Library.AList" "HOL-Library.Sublist" "HOL-Library.Multiset"
begin

section \<open>Largest number in a PDF: a model of \<open>src/main.py\<close>\<close>

text \<open>
  The script reads the text of every page of a PDF, extracts the numeric literals of each page
  twice (a base extraction, and a contextual one that applies scale factors such as
  "in millions"), and selects the largest number under both readings.

  Modelling decisions, used throughout:
  \<^item> A Python \<open>str\<close> is a \<open>string\<close> (list of 8-bit characters). The character classes
    \<open>\\d\<close>, \<open>\\s\<close>, \<open>\\w\<close> and \<open>str.lower\<close> are those of Python on the ASCII code points;
    a character above 127 is in no class and is left alone by \<open>lower\<close>.
  \<^item> A Python \<open>float\<close> is modelled by the rational number it denotes: the rounding of IEEE
    doubles is not modelled. Products are exact.
  \<^item> An exception is a value \<open>Inl e\<close> of a sum type.
  \<^item> A \<open>dict\<close> is an association list in insertion order.
  \<^item> The PDF reader and the table printer are outside the program: a document is the list of
    its page texts, and a printed table is the list of its rows.
\<close>

subsection \<open>Characters and strings\<close>

datatype py_error = ValueError | StopIteration

text \<open>\<open>\\d\<close> on ASCII: the ten decimal digits.\<close>

definition is_digit :: "char \<Rightarrow> bool" where
  "is_digit c = (let n = (of_char c :: nat) in 48 \<le> n \<and> n \<le> 57)"

text \<open>\<open>\\s\<close> of a \<open>str\<close> pattern on ASCII: tab, newline, vertical tab, form feed, carriage return,
  the four separators 0x1c..0x1f and the space.\<close>

definition is_space :: "char \<Rightarrow> bool" where
  "is_space c = (let n = (of_char c :: nat) in (9 \<le> n \<and> n \<le> 13) \<or> (28 \<le> n \<and> n \<le> 32))"

text \<open>\<open>\\w\<close> on ASCII: letters, digits and the underscore.\<close>

definition is_word :: "char \<Rightarrow> bool" where
  "is_word c = (let n = (of_char c :: nat) in
     (48 \<le> n \<and> n \<le> 57) \<or> (65 \<le> n \<and> n \<le> 90) \<or> n = 95 \<or> (97 \<le> n \<and> n \<le> 122))"

text \<open>\<open>str.lower\<close> on ASCII.\<close>

definition lower_char :: "char \<Rightarrow> char" where
  "lower_char c = (let n = (of_char c :: nat) in if 65 \<le> n \<and> n \<le> 90 then char_of (n + 32) else c)"

definition lower :: "string \<Rightarrow> string" where
  "lower s = map lower_char s"

text \<open>The operator \<open>p in t\<close> on strings: \<open>p\<close> occurs in \<open>t\<close> as a contiguous substring.\<close>

fun starts_with :: "string \<Rightarrow> string \<Rightarrow> bool" where
  "starts_with [] t = True"
| "starts_with (c # p) [] = False"
| "starts_with (c # p) (d # t) = (c = d \<and> starts_with p t)"

fun py_in :: "string \<Rightarrow> string \<Rightarrow> bool" where
  "py_in p [] = (p = [])"
| "py_in p (d # t) = (starts_with p (d # t) \<or> py_in p t)"

text \<open>The slice \<open>t[i:j]\<close> for non-negative \<open>i\<close> and \<open>j\<close>; it is empty when \<open>j \<le> i\<close>.\<close>

definition slice :: "string \<Rightarrow> nat \<Rightarrow> nat \<Rightarrow> string" where
  "slice t i j = take (j - i) (drop i t)"

text \<open>\<open>s.replace(',', '')\<close>.\<close>

definition remove_commas :: "string \<Rightarrow> string" where
  "remove_commas s = filter (\<lambda>c. c \<noteq> CHR '','') s"

subsection \<open>The conversion \<open>float(s)\<close>\<close>

text \<open>
  \<open>float\<close> is modelled on the strings made of a sign, digits and a decimal point, which are
  the only strings the program converts (lemma \<open>number_shape_float\<close> below): an optional
  sign, then digits with an optional point and optional digits, or a point and digits.
  Any other string is a \<open>ValueError\<close> here.
\<close>

definition digit_val :: "char \<Rightarrow> nat" where
  "digit_val c = (of_char c :: nat) - 48"

definition digits_val :: "string \<Rightarrow> nat" where
  "digits_val ds = foldl (\<lambda>a c. 10 * a + digit_val c) 0 ds"

definition unsigned_float :: "string \<Rightarrow> py_error + rat" where
  "unsigned_float s =
     (let ip = takeWhile is_digit s; r = dropWhile is_digit s in
      case r of
        [] \<Rightarrow> if ip = [] then Inl ValueError else Inr (of_nat (digits_val ip))
      | c # fp \<Rightarrow>
          if c = CHR ''.'' \<and> list_all is_digit fp \<and> (ip \<noteq> [] \<or> fp \<noteq> [])
          then Inr (of_nat (digits_val ip) + of_nat (digits_val fp) / 10 ^ length fp)
          else Inl ValueError)"

definition py_float :: "string \<Rightarrow> py_error + rat" where
  "py_float s =
     (case s of
        [] \<Rightarrow> Inl ValueError
      | c # r \<Rightarrow>
          if c = CHR ''-'' then map_sum id uminus (unsigned_float r)
          else if c = CHR ''+'' then unsigned_float r
          else unsigned_float s)"

subsection \<open>Regular expressions: the backtracking matcher of \<open>re\<close>\<close>

text \<open>
  The fragment of the pattern language the three patterns of the program use. Repetition and
  option are greedy, alternatives are tried left to right. \<open>\\d{3}\<close>, \<open>\\d{4}\<close> and
  \<open>\\d{1,3}\<close> are written out with \<open>Seq\<close> and \<open>Opt\<close>; \<open>x+\<close> is \<open>x\<close> followed by \<open>x*\<close>;
  a non-capturing group is the expression itself.
\<close>

datatype cls = Digit | Space | Word | OneOf string

fun in_cls :: "cls \<Rightarrow> char \<Rightarrow> bool" where
  "in_cls Digit c = is_digit c"
| "in_cls Space c = is_space c"
| "in_cls Word c = is_word c"
| "in_cls (OneOf cs) c = (c \<in> set cs)"

datatype rx =
    Lit char
  | Cls cls
  | Seq rx rx
  | Alt rx rx
  | Opt rx
  | Star rx
  | Grp nat rx

type_synonym captures = "(nat \<times> string) list"

text \<open>
  \<open>rx_match r (s, caps)\<close> lists, in the order the backtracking matcher tries them, the ways
  \<open>r\<close> can match a prefix of \<open>s\<close>: each is the rest of the string with the groups captured so
  far. The matcher takes the first one. A repetition stops at an iteration that consumes
  nothing.
\<close>

function rx_match :: "rx \<Rightarrow> string \<times> captures \<Rightarrow> (string \<times> captures) list" where
  "rx_match (Lit c) (s, caps) =
     (case s of [] \<Rightarrow> [] | x # xs \<Rightarrow> if x = c then [(xs, caps)] else [])"
| "rx_match (Cls k) (s, caps) =
     (case s of [] \<Rightarrow> [] | x # xs \<Rightarrow> if in_cls k x then [(xs, caps)] else [])"
| "rx_match (Seq a b) st = concat (map (rx_match b) (rx_match a st))"
| "rx_match (Alt a b) st = rx_match a st @ rx_match b st"
| "rx_match (Opt a) st = rx_match a st @ [st]"
| "rx_match (Star a) (s, caps) =
     concat (map (\<lambda>st'. if length (fst st') < length s then rx_match (Star a) st' else [])
                 (rx_match a (s, caps))) @ [(s, caps)]"
| "rx_match (Grp n a) (s, caps) =
     map (\<lambda>(s', caps'). (s', (n, take (length s - length s') s) # caps'))
         (rx_match a (s, caps))"
  by pat_completeness auto
termination
  by (relation "measures [\<lambda>(r, st). size r, \<lambda>(r, st). length (fst st)]") auto

text \<open>A match object: \<open>m.start()\<close>, \<open>m.end()\<close>, \<open>m.group(0)\<close> and the captured groups.\<close>

record rmatch =
  m_start :: nat
  m_end :: nat
  m_text :: string
  m_groups :: captures

definition group :: "rmatch \<Rightarrow> nat \<Rightarrow> string option" where
  "group m n = map_of (m_groups m) n"

text \<open>
  \<open>re.finditer\<close>: the scan tries the pattern at each position from left to right, reports the
  first way it matches there and resumes at the end of the match. After an empty match the
  scan moves on by one character (none of the program's patterns matches the empty string).
\<close>

function finditer_from :: "rx \<Rightarrow> nat \<Rightarrow> string \<Rightarrow> rmatch list" where
  "finditer_from r pos s =
     (case rx_match r (s, []) of
        [] \<Rightarrow> (case s of [] \<Rightarrow> [] | x # s' \<Rightarrow> finditer_from r (Suc pos) s')
      | (rest, caps) # others \<Rightarrow>
          (let n = length s - length rest;
               m = \<lparr>m_start = pos, m_end = pos + n, m_text = take n s, m_groups = caps\<rparr>
           in if n = 0 then (case s of [] \<Rightarrow> [m] | x # s' \<Rightarrow> m # finditer_from r (Suc pos) s')
              else m # finditer_from r (pos + n) (drop n s)))"
  by pat_completeness auto
termination
  by (relation "measure (\<lambda>(r, pos, s). length s)") auto

definition finditer :: "rx \<Rightarrow> string \<Rightarrow> rmatch list" where
  "finditer r s = finditer_from r 0 s"

text \<open>\<open>re.findall\<close> for a pattern without capturing groups: the matched substrings.\<close>

definition findall :: "rx \<Rightarrow> string \<Rightarrow> string list" where
  "findall r s = map m_text (finditer r s)"

subsection \<open>The three patterns of the program\<close>

definition digit :: rx where
  "digit = Cls Digit"

definition space :: rx where
  "space = Cls Space"

definition plus_rx :: "rx \<Rightarrow> rx" where
  "plus_rx r = Seq r (Star r)"

definition rep3 :: "rx \<Rightarrow> rx" where
  "rep3 r = Seq r (Seq r r)"

definition rep4 :: "rx \<Rightarrow> rx" where
  "rep4 r = Seq r (Seq r (Seq r r))"

definition rep1to3 :: "rx \<Rightarrow> rx" where
  "rep1to3 r = Seq r (Opt (Seq r (Opt r)))"

text \<open>\<^verbatim>\<open>(?:\.\d+)?\<close>\<close>

definition fraction_rx :: rx where
  "fraction_rx = Opt (Seq (Lit CHR ''.'') (plus_rx digit))"

text \<open>\<^verbatim>\<open>[-+]?\d{1,3}(?:,\d{3})*(?:\.\d+)?\<close>\<close>

definition grouped_rx :: rx where
  "grouped_rx =
     Seq (Opt (Cls (OneOf ''-+'')))
       (Seq (rep1to3 digit)
         (Seq (Star (Seq (Lit CHR '','') (rep3 digit))) fraction_rx))"

text \<open>\<^verbatim>\<open>\d+(?:\.\d+)?\<close>\<close>

definition plain_rx :: rx where
  "plain_rx = Seq (plus_rx digit) fraction_rx"

text \<open>The pattern of \<open>extract_all_numbers\<close>:
  \<^verbatim>\<open>(?:[-+]?\d{1,3}(?:,\d{3})*(?:\.\d+)?|\d+(?:\.\d+)?)\<close>\<close>

definition number_rx :: rx where
  "number_rx = Alt grouped_rx plain_rx"

text \<open>The pattern of \<open>extract_numbers_with_context\<close>: the number as group 1, then
  \<^verbatim>\<open>\s*(\w+)?\<close> with the word as group 2.\<close>

definition context_rx :: rx where
  "context_rx = Seq (Grp 1 number_rx) (Seq (Star space) (Opt (Grp 2 (plus_rx (Cls Word)))))"

text \<open>The pattern of \<open>detect_table_boundaries\<close>:
  \<^verbatim>\<open>\n\s*(?:FY\s*\d{4}|Fiscal Year)\s*\<close>\<close>

definition fiscal_year_rx :: rx where
  "fiscal_year_rx = foldr (\<lambda>c r. Seq (Lit c) r) ''Fiscal Yea'' (Lit CHR ''r'')"

definition boundary_rx :: rx where
  "boundary_rx =
     Seq (Lit CHR 0x0A)
       (Seq (Star space)
         (Seq (Alt (Seq (Lit CHR ''F'') (Seq (Lit CHR ''Y'') (Seq (Star space) (rep4 digit))))
                   fiscal_year_rx)
              (Star space)))"

subsection \<open>\<open>extract_all_numbers\<close>\<close>

text \<open>The list comprehension \<open>[float(num.replace(',', '')) for num in numbers]\<close>: the first
  conversion that fails raises.\<close>

fun float_all :: "string list \<Rightarrow> py_error + rat list" where
  "float_all [] = Inr []"
| "float_all (num # nums) =
     (case py_float (remove_commas num) of
        Inl e \<Rightarrow> Inl e
      | Inr v \<Rightarrow> (case float_all nums of Inl e \<Rightarrow> Inl e | Inr vs \<Rightarrow> Inr (v # vs)))"

definition extract_all_numbers :: "string \<Rightarrow> py_error + rat list" where
  "extract_all_numbers text = float_all (findall number_rx text)"

subsection \<open>\<open>extract_scale_factor\<close>\<close>

text \<open>The dictionary \<open>scale_factors\<close>, in the order it is written, which is the order
  \<open>items()\<close> iterates in.\<close>

definition scale_factors :: "(string \<times> rat) list" where
  "scale_factors =
     [(''thousand'', 10 ^ 3), (''million'', 10 ^ 6), (''billion'', 10 ^ 9), (''trillion'', 10 ^ 12)]"

text \<open>The loop over the items; \<open>word[0]\<close> is \<open>take 1 word\<close>, the keys being non-empty.\<close>

fun scale_loop :: "(string \<times> rat) list \<Rightarrow> string \<Rightarrow> rat" where
  "scale_loop [] text = 1"
| "scale_loop ((word, factor) # rest) text =
     (if py_in (''in '' @ word) (lower text) \<or> py_in (''($'' @ take 1 word @ '')'') (lower text)
      then factor else scale_loop rest text)"

definition extract_scale_factor :: "string \<Rightarrow> rat" where
  "extract_scale_factor text = scale_loop scale_factors text"

subsection \<open>\<open>detect_table_boundaries\<close>\<close>

definition detect_table_boundaries :: "string \<Rightarrow> nat list" where
  "detect_table_boundaries text = map m_start (finditer boundary_rx text)"

subsection \<open>\<open>extract_numbers_with_context\<close>\<close>

text \<open>A record of the result: (original_number, scaled_number, scale_word, position).\<close>

type_synonym nlp_number = "rat \<times> rat \<times> string \<times> nat"

text \<open>The variables of the loop.\<close>

record nlp_state =
  numbers :: "nlp_number list"
  table_boundaries :: "nat list"
  current_scale :: rat
  last_boundary :: nat

definition scale_words :: "string list" where
  "scale_words = [''thousand'', ''million'', ''billion'', ''trillion'']"

text \<open>\<open>match.group(1)\<close>: group 1 is not optional in the pattern, so it is always a string
  (lemma \<open>context_group1\<close>).\<close>

definition group1 :: "rmatch \<Rightarrow> string" where
  "group1 m = (case group m 1 of None \<Rightarrow> [] | Some g \<Rightarrow> g)"

text \<open>\<open>scale_word or 'N/A'\<close>\<close>

definition word_or_na :: "string option \<Rightarrow> string" where
  "word_or_na w = (case w of None \<Rightarrow> ''N/A'' | Some s \<Rightarrow> if s = [] then ''N/A'' else s)"

text \<open>The two branches that apply the scale of the word after the number.\<close>

definition apply_scale_word :: "string option \<Rightarrow> rat \<Rightarrow> rat" where
  "apply_scale_word scale_word scaled_number =
     (case scale_word of
        None \<Rightarrow> scaled_number
      | Some w \<Rightarrow>
          if w \<in> set scale_words then scaled_number * extract_scale_factor w
          else if w \<noteq> [] \<and> last w = CHR ''s'' \<and> butlast w \<in> set scale_words
          then scaled_number * extract_scale_factor (butlast w)
          else scaled_number)"

text \<open>The test \<open>table_boundaries and position > table_boundaries[0]\<close> and the two assignments
  under it; \<open>pop(0)\<close> removes the first boundary.\<close>

definition update_scale :: "string \<Rightarrow> nat \<Rightarrow> nlp_state \<Rightarrow> nlp_state" where
  "update_scale text position st =
     (case table_boundaries st of
        [] \<Rightarrow> st
      | b # bs \<Rightarrow>
          if position > b
          then st\<lparr>current_scale := extract_scale_factor (slice text (last_boundary st) position),
                  last_boundary := b, table_boundaries := bs\<rparr>
          else st)"

text \<open>The body of the loop over the matches. A match whose number does not convert is
  skipped (\<open>continue\<close>), with the state as it was.\<close>

definition context_step :: "string \<Rightarrow> nlp_state \<Rightarrow> rmatch \<Rightarrow> nlp_state" where
  "context_step text st m =
     (case py_float (remove_commas (group1 m)) of
        Inl e \<Rightarrow> st
      | Inr original_number \<Rightarrow>
          (let scale_word = group m 2;
               position = m_start m;
               st1 = update_scale text position st;
               scaled_number = apply_scale_word scale_word (original_number * current_scale st1)
           in st1\<lparr>numbers := numbers st1 @
                     [(original_number, scaled_number, word_or_na scale_word, position)]\<rparr>))"

definition initial_state :: "string \<Rightarrow> nlp_state" where
  "initial_state text =
     \<lparr>numbers = [], table_boundaries = detect_table_boundaries text,
      current_scale = 1, last_boundary = 0\<rparr>"

definition context_matches :: "string \<Rightarrow> rmatch list" where
  "context_matches text = finditer context_rx (lower text)"

definition extract_numbers_with_context :: "string \<Rightarrow> nlp_number list" where
  "extract_numbers_with_context text =
     numbers (foldl (context_step text) (initial_state text) (context_matches text))"

subsection \<open>\<open>process_pdf\<close>\<close>

text \<open>
  The reader is outside the program: the argument is the list of the texts
  \<open>page.extract_text()\<close> of the pages, numbered from 1. The assignment
  \<open>nlp_results[page_num] = nlp_numbers\<close> is \<open>AList.update\<close>, which replaces the value of
  a key in place and puts a new key last.
\<close>

type_synonym base_number = "rat \<times> nat"

type_synonym nlp_results = "(nat \<times> nlp_number list) list"

fun process_pages ::
  "nat \<Rightarrow> string list \<Rightarrow> base_number list \<times> nlp_results \<Rightarrow>
   py_error + (base_number list \<times> nlp_results)" where
  "process_pages page_num [] acc = Inr acc"
| "process_pages page_num (text # pages) (all_numbers, nlp_results) =
     (case extract_all_numbers text of
        Inl e \<Rightarrow> Inl e
      | Inr nums \<Rightarrow>
          (let all_numbers' = all_numbers @ map (\<lambda>num. (num, page_num)) nums;
               nlp_numbers = extract_numbers_with_context text;
               nlp_results' = (if nlp_numbers \<noteq> []
                               then AList.update page_num nlp_numbers nlp_results
                               else nlp_results)
           in process_pages (Suc page_num) pages (all_numbers', nlp_results')))"

definition process_pdf :: "string list \<Rightarrow> py_error + (base_number list \<times> nlp_results)" where
  "process_pdf pages = process_pages 1 pages ([], [])"

subsection \<open>\<open>max\<close>, \<open>next\<close> and \<open>sorted\<close>\<close>

text \<open>\<open>max(xs, key=key)\<close> keeps the first of the largest elements: a later element replaces
  the best one only when its key is strictly larger. On an empty list it raises
  \<open>ValueError\<close>.\<close>

fun max_loop :: "('a \<Rightarrow> rat) \<Rightarrow> 'a \<Rightarrow> 'a list \<Rightarrow> 'a" where
  "max_loop key best [] = best"
| "max_loop key best (x # xs) = max_loop key (if key x > key best then x else best) xs"

fun py_max :: "('a \<Rightarrow> rat) \<Rightarrow> 'a list \<Rightarrow> py_error + 'a" where
  "py_max key [] = Inl ValueError"
| "py_max key (x # xs) = Inr (max_loop key x xs)"

text \<open>\<open>max(xs, key=key, default=None)\<close>\<close>

fun py_max_default :: "('a \<Rightarrow> rat) \<Rightarrow> 'a list \<Rightarrow> 'a option" where
  "py_max_default key [] = None"
| "py_max_default key (x # xs) = Some (max_loop key x xs)"

text \<open>\<open>next(it)\<close> on a generator: its first element, or \<open>StopIteration\<close>.\<close>

fun py_next :: "'a list \<Rightarrow> py_error + 'a" where
  "py_next [] = Inl StopIteration"
| "py_next (x # xs) = Inr x"

text \<open>\<open>sorted(xs, key=key, reverse=True)\<close>: the list is reversed, sorted by a stable sort and
  reversed again, so that elements with equal keys keep their order.\<close>

definition py_sorted_reverse :: "('a \<Rightarrow> rat) \<Rightarrow> 'a list \<Rightarrow> 'a list" where
  "py_sorted_reverse key xs = rev (sort_key key (rev xs))"

subsection \<open>\<open>find_largest_number\<close> and \<open>find_largest_nlp_number\<close>\<close>

definition find_largest_number :: "base_number list \<Rightarrow> py_error + base_number option" where
  "find_largest_number nums =
     (if nums \<noteq> [] then map_sum id Some (py_max fst nums) else Inr None)"

definition scaled_of :: "nlp_number \<Rightarrow> rat" where
  "scaled_of x = fst (snd x)"

text \<open>The generator \<open>(max(page, key=...) for page in nlp_results.values() if page)\<close>.\<close>

fun page_maxima :: "nlp_results \<Rightarrow> py_error + nlp_number list" where
  "page_maxima [] = Inr []"
| "page_maxima ((page_num, page) # rest) =
     (if page \<noteq> []
      then (case py_max scaled_of page of
              Inl e \<Rightarrow> Inl e
            | Inr m \<Rightarrow> (case page_maxima rest of Inl e \<Rightarrow> Inl e | Inr ms \<Rightarrow> Inr (m # ms)))
      else page_maxima rest)"

text \<open>The result is the tuple \<open>(*largest, page)\<close>. A tuple of four elements is true, so the
  test \<open>if largest\<close> only excludes \<open>None\<close>.\<close>

definition find_largest_nlp_number ::
  "nlp_results \<Rightarrow> py_error + (rat \<times> rat \<times> string \<times> nat \<times> nat) option" where
  "find_largest_nlp_number nlp_results =
     (if nlp_results = [] then Inr None
      else case page_maxima nlp_results of
        Inl e \<Rightarrow> Inl e
      | Inr ms \<Rightarrow>
          (case py_max_default scaled_of ms of
             None \<Rightarrow> Inr None
           | Some largest \<Rightarrow>
               (case py_next (map fst (filter (\<lambda>(page, nums). largest \<in> set nums) nlp_results)) of
                  Inl e \<Rightarrow> Inl e
                | Inr page \<Rightarrow>
                    (case largest of (original, scaled, word, position) \<Rightarrow>
                       Inr (Some (original, scaled, word, position, page))))))"

subsection \<open>\<open>display_results\<close>\<close>

text \<open>
  The printer is outside the program: the model gives the tuples the two loops iterate over,
  one per row of a table. The key \<open>float(str(x))\<close> of a float \<open>x\<close> is \<open>x\<close>.
\<close>

definition display_base_rows :: "base_number list \<Rightarrow> base_number list" where
  "display_base_rows base_numbers = take 10 (py_sorted_reverse fst base_numbers)"

definition all_nlp_numbers :: "nlp_results \<Rightarrow> (rat \<times> rat \<times> string \<times> nat \<times> nat) list" where
  "all_nlp_numbers nlp_results =
     concat (map (\<lambda>(page, nums).
                    map (\<lambda>(original, scaled, word, position).
                           (original, scaled, word, position, page)) nums)
                 nlp_results)"

definition display_nlp_rows :: "nlp_results \<Rightarrow> (rat \<times> rat \<times> string \<times> nat \<times> nat) list" where
  "display_nlp_rows nlp_results =
     take 10 (py_sorted_reverse (\<lambda>x. fst (snd x)) (all_nlp_numbers nlp_results))"

subsection \<open>Page texts used below\<close>

text \<open>The page \<^verbatim>\<open>"Revenue in millions\n100 (net) \n150.5"\<close>.\<close>

definition scenario_text :: string where
  "scenario_text = ''Revenue in millions'' @ [CHR 0x0A] @ ''100 (net) '' @ [CHR 0x0A] @ ''150.5''"

text \<open>The page \<^verbatim>\<open>"in billions\nFY 2024 x 5 million"\<close>: a number followed by a scale word,
  after a table boundary whose preceding text says "in billions".\<close>

definition stacking_text :: string where
  "stacking_text = ''in billions'' @ [CHR 0x0A] @ ''FY 2024 x 5 million''"

subsection \<open>What the scale resolver looks for\<close>

text \<open>A text has the cue of a keyword when, in lower case, it contains "in <word>" or
  "($<first letter of the word>)" as a substring.\<close>

definition has_cue :: "string \<Rightarrow> string \<Rightarrow> bool" where
  "has_cue word text =
     (sublist (''in '' @ word) (lower text) \<or> sublist (''($'' @ take 1 word @ '')'') (lower text))"

text \<open>Fifteen pairs with the distinct values 0..14, in a scrambled order.\<close>

definition fifteen_values :: "base_number list" where
  "fifteen_values = map (\<lambda>n. (of_nat ((7 * n) mod 15), Suc (n div 5))) [0..<15]"

subsection \<open>What the selectors are to return\<close>

text \<open>\<open>m\<close> is the first maximum of \<open>xs\<close> by \<open>key\<close>: \<open>xs\<close> is \<open>pre\<close>, then \<open>m\<close>, then
  \<open>post\<close>; every element before \<open>m\<close> has a smaller key and no element after it has a
  larger one.\<close>

definition first_max :: "('a \<Rightarrow> rat) \<Rightarrow> 'a list \<Rightarrow> 'a list \<Rightarrow> 'a \<Rightarrow> 'a list \<Rightarrow> bool" where
  "first_max key xs pre m post =
     (xs = pre @ m # post \<and> (\<forall>y\<in>set pre. key y < key m) \<and> (\<forall>y\<in>set post. key y \<le> key m))"

text \<open>A record of a page with the number of the page, as in the tuple \<open>(*largest, page)\<close>.\<close>

definition attach_page :: "nat \<Rightarrow> nlp_number \<Rightarrow> rat \<times> rat \<times> string \<times> nat \<times> nat" where
  "attach_page page x = (case x of (original, scaled, word, position) \<Rightarrow>
     (original, scaled, word, position, page))"

text \<open>The first of the maxima of two parts of a list, each part possibly empty.\<close>

fun first_of_maxima :: "('a \<Rightarrow> rat) \<Rightarrow> 'a option \<Rightarrow> 'a option \<Rightarrow> 'a option" where
  "first_of_maxima key None b = b"
| "first_of_maxima key (Some a) None = Some a"
| "first_of_maxima key (Some a) (Some b) = Some (if key b > key a then b else a)"

text \<open>The base numbers of a document of two pages: the largest of page 1 is 999.99, the
  largest of page 2 is 1000.00.\<close>

definition two_page_numbers :: "base_number list" where
  "two_page_numbers = [(5, 1), (99999 / 100, 1), (1000, 2), (3, 2)]"

text \<open>Contextual results of two pages in which the largest scaled value occurs on both.\<close>

definition two_page_results :: nlp_results where
  "two_page_results =
     [(1, [(5, 5, ''N/A'', 0), (7, 7000, ''x'', 4)]), (3, [(7, 7000, ''x'', 4), (2, 2, ''N/A'', 9)])]"

subsection \<open>The language of a pattern\<close>

text \<open>The strings a pattern can match in full, whatever the order of the attempts.\<close>

inductive rx_lang :: "rx \<Rightarrow> string \<Rightarrow> bool" where
  lang_Lit: "rx_lang (Lit c) [c]"
| lang_Cls: "in_cls k x \<Longrightarrow> rx_lang (Cls k) [x]"
| lang_Seq: "rx_lang a u \<Longrightarrow> rx_lang b v \<Longrightarrow> rx_lang (Seq a b) (u @ v)"
| lang_Alt1: "rx_lang a u \<Longrightarrow> rx_lang (Alt a b) u"
| lang_Alt2: "rx_lang b u \<Longrightarrow> rx_lang (Alt a b) u"
| lang_Opt_none: "rx_lang (Opt a) []"
| lang_Opt_some: "rx_lang a u \<Longrightarrow> rx_lang (Opt a) u"
| lang_Star_none: "rx_lang (Star a) []"
| lang_Star_more: "rx_lang a u \<Longrightarrow> rx_lang (Star a) v \<Longrightarrow> rx_lang (Star a) (u @ v)"
| lang_Grp: "rx_lang a u \<Longrightarrow> rx_lang (Grp n a) u"

inductive_simps lang_Lit_iff: "rx_lang (Lit c) m"
inductive_simps lang_Cls_iff: "rx_lang (Cls k) m"
inductive_simps lang_Seq_iff: "rx_lang (Seq a b) m"
inductive_simps lang_Alt_iff: "rx_lang (Alt a b) m"
inductive_simps lang_Opt_iff: "rx_lang (Opt a) m"
inductive_simps lang_Grp_iff: "rx_lang (Grp n a) m"

text \<open>The numbers of the groups of a pattern.\<close>

fun grp_ids :: "rx \<Rightarrow> nat set" where
  "grp_ids (Lit c) = {}"
| "grp_ids (Cls k) = {}"
| "grp_ids (Seq a b) = grp_ids a \<union> grp_ids b"
| "grp_ids (Alt a b) = grp_ids a \<union> grp_ids b"
| "grp_ids (Opt a) = grp_ids a"
| "grp_ids (Star a) = grp_ids a"
| "grp_ids (Grp n a) = insert n (grp_ids a)"

text \<open>The strings \<open>float\<close> is applied to: an optional sign, digits, and optionally a point
  followed by digits.\<close>

definition number_shape :: "string \<Rightarrow> bool" where
  "number_shape s =
     (\<exists>sg ds fr. s = sg @ ds @ fr \<and> (sg = [] \<or> sg = ''-'' \<or> sg = ''+'')
        \<and> ds \<noteq> [] \<and> list_all is_digit ds
        \<and> (fr = [] \<or> (\<exists>fs. fr = CHR ''.'' # fs \<and> fs \<noteq> [] \<and> list_all is_digit fs)))"

text \<open>A page with a number in comma groups and a negative number, and a match object
  without groups.\<close>

definition comma_text :: string where
  "comma_text = ''1,234.5 and -7''"

definition empty_match :: rmatch where
  "empty_match = \<lparr>m_start = 0, m_end = 0, m_text = [], m_groups = []\<rparr>"

subsection \<open>What \<open>process_pdf\<close> is to return\<close>

text \<open>The values of the base extraction of a page, the base pairs of the pages numbered
  from \<open>k\<close>, and the entries of the pages from \<open>k\<close> that have contextual records.\<close>

definition base_values :: "string \<Rightarrow> rat list" where
  "base_values text = (case extract_all_numbers text of Inl e \<Rightarrow> [] | Inr vs \<Rightarrow> vs)"

fun base_from :: "nat \<Rightarrow> string list \<Rightarrow> base_number list" where
  "base_from k [] = []"
| "base_from k (text # pages) = map (\<lambda>v. (v, k)) (base_values text) @ base_from (Suc k) pages"

fun nlp_from :: "nat \<Rightarrow> string list \<Rightarrow> nlp_results" where
  "nlp_from k [] = []"
| "nlp_from k (text # pages) =
     (if extract_numbers_with_context text \<noteq> [] then [(k, extract_numbers_with_context text)] else [])
     @ nlp_from (Suc k) pages"

text \<open>A document of two pages, the first without any number.\<close>

definition two_pages :: "string list" where
  "two_pages = [''no numbers here'', ''5 million'']"

subsection \<open>The records of all pages\<close>

text \<open>The records of a mapping of contextual results: those of the first page in their
  order, then those of the next page, each with the number of its page.\<close>

definition nlp_records :: "nlp_results \<Rightarrow> (rat \<times> rat \<times> string \<times> nat \<times> nat) list" where
  "nlp_records nlp = concat (map (\<lambda>(page, nums). map (attach_page page) nums) nlp)"

text \<open>Fifteen records on two pages; the scaled value 12000 occurs on both pages.\<close>

definition fifteen_records :: nlp_results where
  "fifteen_records =
     [(1, map (\<lambda>v. (v, 1000 * v, ''N/A'', 0)) [3, 11, 7, 1, 9, 5, 12, 14]),
      (2, map (\<lambda>v. (v, 1000 * v, ''N/A'', 0)) [2, 10, 12, 4, 6, 13, 8])]"

subsection \<open>The loop of \<open>extract_numbers_with_context\<close>, match by match\<close>

text \<open>The variables of the loop after the first \<open>k\<close> matches.\<close>

definition state_after :: "string \<Rightarrow> nat \<Rightarrow> nlp_state" where
  "state_after text k =
     foldl (context_step text) (initial_state text) (take k (context_matches text))"

text \<open>The number of boundaries removed from the pending list by then.\<close>

definition consumed :: "string \<Rightarrow> nat \<Rightarrow> nat" where
  "consumed text k =
     length (detect_table_boundaries text) - length (table_boundaries (state_after text k))"

text \<open>The page \<^verbatim>\<open>"\nFiscal Year x\nFiscal Year y 5"\<close>: two boundaries, then one number.\<close>

definition two_boundaries_text :: string where
  "two_boundaries_text = [CHR 0x0A] @ ''Fiscal Year x'' @ [CHR 0x0A] @ ''Fiscal Year y 5''"

text \<open>The page \<^verbatim>\<open>"in millions\nFiscal Year a\nFiscal Year b 1 x 3 y 4"\<close>: two boundaries,
  then three numbers.\<close>

definition tables_text :: string where
  "tables_text = ''in millions'' @ [CHR 0x0A] @ ''Fiscal Year a'' @ [CHR 0x0A]
     @ ''Fiscal Year b 1 x 3 y 4''"

section \<open>Properties\<close>

subsection \<open>The scale word after a number\<close>

text \<open>
  Claim C1 says that a number followed by one of the four scale words, or by one of them with
  a final "s", is multiplied by the factor of that word on top of the ambient scale. The
  program calls \<open>extract_scale_factor\<close> on the word alone, which looks for "in <word>" or
  "($<letter>)" and finds neither in a single word: the factor is 1 for each of the four
  words. So "5 million" gives the scaled value 5, and under the ambient scale of a table
  headed "in billions" it gives 5 * 10^9, not 5 * 10^9 * 10^6.
\<close>

theorem inline_scale_word_ignored:
  "extract_numbers_with_context ''5 million'' = [(5, 5, ''million'', 0)]
   \<and> extract_numbers_with_context ''5 millions'' = [(5, 5, ''millions'', 0)]
   \<and> extract_numbers_with_context stacking_text =
       [(202, 202 * 10 ^ 9, ''4'', 15), (5, 5 * 10 ^ 9, ''million'', 22)]
   \<and> map extract_scale_factor scale_words = [1, 1, 1, 1]"
  by code_simp

subsection \<open>The scenario "Revenue in millions"\<close>

text \<open>
  Claim C2 says that on the page \<open>scenario_text\<close> the contextual extraction gives the scaled
  values 1.0e8 and 1.505e8. It does not: the page has no table boundary, so the ambient
  scale stays 1.
\<close>

theorem scenario_counterexample:
  "map scaled_of (extract_numbers_with_context scenario_text) \<noteq> [10 ^ 8, 1505 * 10 ^ 5]"
  by code_simp

text \<open>
  Claim C2 as amended: on the page \<open>scenario_text\<close> the base extraction returns
  [100.0, 150.5]; the page has no table boundary, and the contextual extraction returns two
  records with the scale word "N/A", at the positions 20 and 31, whose scaled values are the
  original values 100.0 and 150.5.
\<close>

theorem scenario_amended:
  "extract_all_numbers scenario_text = Inr [100, 301 / 2]
   \<and> detect_table_boundaries scenario_text = []
   \<and> extract_numbers_with_context scenario_text =
       [(100, 100, ''N/A'', 20), (301 / 2, 301 / 2, ''N/A'', 31)]"
  by code_simp

subsection \<open>The selectors on empty input\<close>

text \<open>
  Claim C7: on the empty list of base pairs and on the empty mapping of contextual results,
  the two selectors return \<open>None\<close> and raise nothing.
\<close>

theorem selectors_empty:
  "find_largest_number [] = Inr None \<and> find_largest_nlp_number [] = Inr None"
  by (simp add: find_largest_number_def find_largest_nlp_number_def)

subsection \<open>The scale resolver\<close>

lemma starts_with_prefix: "starts_with p t = prefix p t"
  by (induction p t rule: starts_with.induct) auto

lemma py_in_sublist: "py_in p t = sublist p t"
proof (induction t)
  case Nil
  then show ?case by auto
next
  case (Cons d t)
  then show ?case by (simp add: starts_with_prefix sublist_Cons_right)
qed

lemma scale_loop_table:
  "extract_scale_factor text =
     (if has_cue ''thousand'' text then 10 ^ 3
      else if has_cue ''million'' text then 10 ^ 6
      else if has_cue ''billion'' text then 10 ^ 9
      else if has_cue ''trillion'' text then 10 ^ 12
      else 1)"
  by (simp add: extract_scale_factor_def scale_factors_def has_cue_def py_in_sublist)

lemma scale_loop_lower: "lower a = lower b \<Longrightarrow> scale_loop tbl a = scale_loop tbl b"
  by (induction tbl) auto

lemma millions_cue: "sublist ''in millions'' t \<Longrightarrow> sublist ''in million'' t"
  using sublist_order.order_trans [of "''in million''" "''in millions''" t]
        sublist_append_rightI [of "''in million''" "''s''"]
  by simp

text \<open>
  Claim C4 says that a text containing both "in millions" and "in billions" resolves to 10^6.
  It does not when the text also has a cue of thousand, which is looked for before both:
  such a text resolves to 10^3.
\<close>

theorem scale_resolver_thousand_counterexample:
  "sublist ''in millions'' (lower ''in millions, in billions, in thousands'')
   \<and> sublist ''in billions'' (lower ''in millions, in billions, in thousands'')
   \<and> extract_scale_factor ''in millions, in billions, in thousands'' = 10 ^ 3
   \<and> extract_scale_factor ''in millions, in billions, in thousands'' \<noteq> 10 ^ 6"
  by code_simp

text \<open>
  Claim C4 as amended: the scale resolver looks, without regard to case, for the cue of each
  keyword in the order thousand, million, billion, trillion and returns the factor of the
  first keyword whose cue is present, and 1 when none is. Two texts that agree in lower case
  get the same factor. A text with "in millions" and "in billions" and no cue of thousand
  (neither "in thousand" nor "($t)") resolves to 10^6.
\<close>

theorem scale_resolver_first_match:
  "extract_scale_factor text =
     (if has_cue ''thousand'' text then 10 ^ 3
      else if has_cue ''million'' text then 10 ^ 6
      else if has_cue ''billion'' text then 10 ^ 9
      else if has_cue ''trillion'' text then 10 ^ 12
      else 1)
   \<and> (\<forall>text'. lower text' = lower text \<longrightarrow> extract_scale_factor text' = extract_scale_factor text)
   \<and> (sublist ''in millions'' (lower text) \<and> sublist ''in billions'' (lower text)
        \<and> \<not> has_cue ''thousand'' text \<longrightarrow> extract_scale_factor text = 10 ^ 6)"
proof (intro conjI allI impI)
  show "extract_scale_factor text =
     (if has_cue ''thousand'' text then 10 ^ 3
      else if has_cue ''million'' text then 10 ^ 6
      else if has_cue ''billion'' text then 10 ^ 9
      else if has_cue ''trillion'' text then 10 ^ 12
      else 1)"
    by (rule scale_loop_table)
next
  fix text' assume "lower text' = lower text"
  then show "extract_scale_factor text' = extract_scale_factor text"
    unfolding extract_scale_factor_def by (rule scale_loop_lower)
next
  assume h: "sublist ''in millions'' (lower text) \<and> sublist ''in billions'' (lower text)
        \<and> \<not> has_cue ''thousand'' text"
  then have "has_cue ''million'' text"
    using millions_cue [of "lower text"] by (simp add: has_cue_def)
  with h show "extract_scale_factor text = 10 ^ 6"
    by (simp only: scale_loop_table if_True if_False)
qed

text \<open>
  Claim C5: the abbreviation "($t)" is the cue of thousand and of trillion, and thousand is
  checked first. A text that contains "($t)" resolves to 10^3; a text that resolves to 10^12
  contains "in trillion" and does not contain "($t)".
\<close>

theorem abbreviation_never_trillion:
  "(sublist ''($t)'' (lower text) \<longrightarrow> extract_scale_factor text = 10 ^ 3)
   \<and> (extract_scale_factor text = 10 ^ 12 \<longrightarrow>
        sublist ''in trillion'' (lower text) \<and> \<not> sublist ''($t)'' (lower text))"
proof (intro conjI impI)
  assume "sublist ''($t)'' (lower text)"
  then have "has_cue ''thousand'' text" by (simp add: has_cue_def)
  then show "extract_scale_factor text = 10 ^ 3" by (simp only: scale_loop_table if_True)
next
  assume e: "extract_scale_factor text = 10 ^ 12"
  have n1: "\<not> has_cue ''thousand'' text"
    using e by (simp add: scale_loop_table split: if_splits)
  then show "\<not> sublist ''($t)'' (lower text)" by (simp add: has_cue_def)
  have "has_cue ''trillion'' text"
    using e by (simp add: scale_loop_table split: if_splits)
  with n1 show "sublist ''in trillion'' (lower text)" by (simp add: has_cue_def)
qed

theorem scale_resolver_first_match_witness:
  "extract_scale_factor ''Revenue In Millions, costs IN BILLIONS'' = 10 ^ 6
   \<and> extract_scale_factor ''no scale here'' = 1
   \<and> extract_scale_factor ''SALES ($M)'' = extract_scale_factor ''sales ($m)''"
proof -
  have "lower ''SALES ($M)'' = lower ''sales ($m)''"
    by code_simp
  moreover
  have "sublist ''in millions'' (lower ''Revenue In Millions, costs IN BILLIONS'')
      \<and> sublist ''in billions'' (lower ''Revenue In Millions, costs IN BILLIONS'')
      \<and> \<not> has_cue ''thousand'' ''Revenue In Millions, costs IN BILLIONS''"
    unfolding has_cue_def by code_simp
  moreover have "\<not> has_cue ''thousand'' ''no scale here'' \<and> \<not> has_cue ''million'' ''no scale here''
     \<and> \<not> has_cue ''billion'' ''no scale here'' \<and> \<not> has_cue ''trillion'' ''no scale here''"
    unfolding has_cue_def by code_simp
  ultimately show ?thesis
    using scale_resolver_first_match [of "''Revenue In Millions, costs IN BILLIONS''"]
          scale_resolver_first_match [of "''no scale here''"]
          scale_resolver_first_match [of "''sales ($m)''"]
    by simp
qed

theorem abbreviation_never_trillion_witness:
  "sublist ''($t)'' (lower ''Totals ($T)'') \<and> extract_scale_factor ''Totals ($T)'' = 10 ^ 3
   \<and> extract_scale_factor ''in trillions'' = 10 ^ 12 \<and> sublist ''in trillion'' (lower ''in trillions'')
   \<and> \<not> sublist ''($t)'' (lower ''in trillions'')"
proof -
  have h: "sublist ''($t)'' (lower ''Totals ($T)'')" by code_simp
  have e: "extract_scale_factor ''in trillions'' = 10 ^ 12" by code_simp
  show ?thesis
    using h e abbreviation_never_trillion [of "''Totals ($T)''"]
          abbreviation_never_trillion [of "''in trillions''"]
    by blast
qed

subsection \<open>The ten largest numbers of the tables\<close>

lemma sorted_reverse_perm: "mset (py_sorted_reverse key xs) = mset xs"
  by (simp add: py_sorted_reverse_def)

lemma sorted_reverse_length: "length (py_sorted_reverse key xs) = length xs"
  by (simp add: py_sorted_reverse_def)

lemma sorted_reverse_descending:
  "sorted_wrt (\<lambda>a b. key a \<ge> key b) (py_sorted_reverse key xs)"
proof -
  have "sorted (map key (sort_key key (rev xs)))" by simp
  then have "sorted_wrt (\<lambda>a b. key a \<le> key b) (sort_key key (rev xs))"
    by (simp add: sorted_map)
  then show ?thesis
    by (simp add: py_sorted_reverse_def sorted_wrt_rev)
qed

lemma sorted_reverse_stable:
  "filter (\<lambda>y. key y = k) (py_sorted_reverse key xs) = filter (\<lambda>y. key y = k) xs"
proof -
  have "filter (\<lambda>y. key y = k) (py_sorted_reverse key xs)
        = rev (filter (\<lambda>y. key y = k) (sort_key key (rev xs)))"
    by (simp add: py_sorted_reverse_def rev_filter)
  also have "\<dots> = rev (filter (\<lambda>y. key y = k) (rev xs))"
    by (simp only: sort_key_stable)
  also have "\<dots> = filter (\<lambda>y. key y = k) xs"
    by (simp add: rev_filter)
  finally show ?thesis .
qed


lemma mset_take_subset: "mset (take n ys) \<subseteq># mset ys"
  by (metis append_take_drop_id mset_append mset_subset_eq_add_left)

lemma top_rows:
  fixes key :: "'a \<Rightarrow> rat"
  defines "rows \<equiv> \<lambda>xs. take 10 (py_sorted_reverse key xs)"
  shows "length (rows xs) = min 10 (length xs)"
    and "mset (rows xs) \<subseteq># mset xs"
    and "sorted_wrt (\<lambda>a b. key a \<ge> key b) (rows xs)"
    and "prefix (filter (\<lambda>y. key y = k) (rows xs)) (filter (\<lambda>y. key y = k) xs)"
    and "distinct xs \<Longrightarrow> distinct (rows xs)"
proof -
  show "length (rows xs) = min 10 (length xs)"
    by (simp add: rows_def sorted_reverse_length min.commute)
  show "mset (rows xs) \<subseteq># mset xs"
    using mset_take_subset [of 10 "py_sorted_reverse key xs"]
    by (simp add: rows_def sorted_reverse_perm)
  show "sorted_wrt (\<lambda>a b. key a \<ge> key b) (rows xs)"
    unfolding rows_def by (rule sorted_wrt_take) (rule sorted_reverse_descending)
  have "prefix (filter (\<lambda>y. key y = k) (rows xs))
               (filter (\<lambda>y. key y = k) (py_sorted_reverse key xs))"
    unfolding rows_def by (rule filter_mono_prefix) (rule take_is_prefix)
  then show "prefix (filter (\<lambda>y. key y = k) (rows xs)) (filter (\<lambda>y. key y = k) xs)"
    by (simp only: sorted_reverse_stable)
  show "distinct xs \<Longrightarrow> distinct (rows xs)"
  proof -
    assume "distinct xs"
    then have "distinct (py_sorted_reverse key xs)"
      by (simp add: py_sorted_reverse_def)
    then show ?thesis by (simp add: rows_def)
  qed
qed

lemma top_rows_largest:
  fixes key :: "'a \<Rightarrow> rat"
  shows "\<exists>rest. mset xs = mset (take 10 (py_sorted_reverse key xs)) + mset rest
           \<and> (\<forall>r\<in>set (take 10 (py_sorted_reverse key xs)). \<forall>x\<in>set rest. key x \<le> key r)"
proof -
  define ys where "ys = py_sorted_reverse key xs"
  have "sorted_wrt (\<lambda>a b. key a \<ge> key b) (take 10 ys @ drop 10 ys)"
    using sorted_reverse_descending [of key xs] by (simp add: ys_def)
  then have top: "\<forall>r\<in>set (take 10 ys). \<forall>x\<in>set (drop 10 ys). key x \<le> key r"
    by (simp only: sorted_wrt_append) blast
  have "mset xs = mset (take 10 ys @ drop 10 ys)"
    by (simp add: ys_def sorted_reverse_perm)
  then have "mset xs = mset (take 10 ys) + mset (drop 10 ys)"
    by (simp only: mset_append)
  with top show ?thesis unfolding ys_def by blast
qed

lemma all_nlp_numbers_records: "all_nlp_numbers nlp = nlp_records nlp"
  by (simp add: all_nlp_numbers_def nlp_records_def attach_page_def [abs_def])

lemma nlp_records_length: "length (nlp_records nlp) = sum_list (map (\<lambda>e. length (snd e)) nlp)"
  by (induction nlp) (auto simp add: nlp_records_def)

lemma nlp_records_member:
  "(original, scaled, word, position, page) \<in> set (nlp_records nlp) \<longleftrightarrow>
     (\<exists>nums. (page, nums) \<in> set nlp \<and> (original, scaled, word, position) \<in> set nums)"
proof -
  have s: "set (nlp_records nlp) = (\<Union>e\<in>set nlp. attach_page (fst e) ` set (snd e))"
    by (auto simp add: nlp_records_def)
  have a: "\<And>p x. attach_page p x = (original, scaled, word, position, page) \<longleftrightarrow>
              p = page \<and> x = (original, scaled, word, position)"
    by (auto simp add: attach_page_def split: prod.splits)
  show ?thesis
  proof
    assume "(original, scaled, word, position, page) \<in> set (nlp_records nlp)"
    then obtain e x where e: "e \<in> set nlp" and x: "x \<in> set (snd e)"
      and ax: "attach_page (fst e) x = (original, scaled, word, position, page)"
      unfolding s by auto
    from ax a [of "fst e" x] have fe: "fst e = page" and xe: "x = (original, scaled, word, position)"
      by blast+
    from e fe have "(page, snd e) \<in> set nlp" by (metis prod.collapse)
    moreover from x xe have "(original, scaled, word, position) \<in> set (snd e)" by simp
    ultimately show "\<exists>nums. (page, nums) \<in> set nlp \<and> (original, scaled, word, position) \<in> set nums"
      by blast
  next
    assume "\<exists>nums. (page, nums) \<in> set nlp \<and> (original, scaled, word, position) \<in> set nums"
    then obtain nums where n: "(page, nums) \<in> set nlp"
      and t: "(original, scaled, word, position) \<in> set nums"
      by blast
    from t have "attach_page page (original, scaled, word, position)
        \<in> attach_page (fst (page, nums)) ` set (snd (page, nums))" by simp
    with n have "attach_page page (original, scaled, word, position) \<in> set (nlp_records nlp)"
      unfolding s by blast
    then show "(original, scaled, word, position, page) \<in> set (nlp_records nlp)"
      using a [of page "(original, scaled, word, position)"] by simp
  qed
qed

text \<open>
  Claim C9: the rows of each of the two tables are the first ten elements of the input sorted
  by decreasing value; the input of the second table is the list of the records of all pages,
  each with its page. There are min(10, length) rows, they are drawn from the input
  (as a multiset, so no element is duplicated; a duplicate-free input gives duplicate-free
  rows), they are in descending order of the value, and for every value the rows with that
  value are a prefix of the input elements with that value, in the input order. The rows
  are the largest: the input is the rows and the elements left out, and no element left out
  has a larger value than a row. Fifteen input elements give ten rows.
\<close>

theorem top_ten_rows:
  "length (display_base_rows base) = min 10 (length base)
   \<and> mset (display_base_rows base) \<subseteq># mset base
   \<and> sorted_wrt (\<lambda>a b. fst a \<ge> fst b) (display_base_rows base)
   \<and> (\<forall>k. prefix (filter (\<lambda>y. fst y = k) (display_base_rows base)) (filter (\<lambda>y. fst y = k) base))
   \<and> (distinct base \<longrightarrow> distinct (display_base_rows base))
   \<and> (length base = 15 \<longrightarrow> length (display_base_rows base) = 10)
   \<and> (\<exists>rest. mset base = mset (display_base_rows base) + mset rest
          \<and> (\<forall>r\<in>set (display_base_rows base). \<forall>x\<in>set rest. fst x \<le> fst r))
   \<and> all_nlp_numbers nlp = nlp_records nlp
   \<and> (\<forall>original scaled word position page.
         (original, scaled, word, position, page) \<in> set (nlp_records nlp) \<longleftrightarrow>
         (\<exists>nums. (page, nums) \<in> set nlp \<and> (original, scaled, word, position) \<in> set nums))
   \<and> length (display_nlp_rows nlp) = min 10 (sum_list (map (\<lambda>e. length (snd e)) nlp))
   \<and> mset (display_nlp_rows nlp) \<subseteq># mset (nlp_records nlp)
   \<and> sorted_wrt (\<lambda>a b. fst (snd a) \<ge> fst (snd b)) (display_nlp_rows nlp)
   \<and> (\<forall>k. prefix (filter (\<lambda>y. fst (snd y) = k) (display_nlp_rows nlp))
                  (filter (\<lambda>y. fst (snd y) = k) (nlp_records nlp)))
   \<and> (distinct (nlp_records nlp) \<longrightarrow> distinct (display_nlp_rows nlp))
   \<and> (sum_list (map (\<lambda>e. length (snd e)) nlp) = 15 \<longrightarrow> length (display_nlp_rows nlp) = 10)
   \<and> (\<exists>rest. mset (nlp_records nlp) = mset (display_nlp_rows nlp) + mset rest
          \<and> (\<forall>r\<in>set (display_nlp_rows nlp). \<forall>x\<in>set rest. fst (snd x) \<le> fst (snd r)))"
proof -
  define recs where "recs = nlp_records nlp"
  define total where "total = sum_list (map (\<lambda>e. length (snd e)) nlp)"
  have dn: "display_nlp_rows nlp = take 10 (py_sorted_reverse (\<lambda>x. fst (snd x)) recs)"
    by (simp add: display_nlp_rows_def all_nlp_numbers_records recs_def)
  have len: "length recs = total"
    by (simp add: recs_def total_def nlp_records_length)
  have b1: "length (display_base_rows base) = min 10 (length base)"
    unfolding display_base_rows_def by (rule top_rows(1))
  have b2: "mset (display_base_rows base) \<subseteq># mset base"
    unfolding display_base_rows_def by (rule top_rows(2))
  have b3: "sorted_wrt (\<lambda>a b. fst a \<ge> fst b) (display_base_rows base)"
    unfolding display_base_rows_def by (rule top_rows(3))
  have b4: "\<forall>k. prefix (filter (\<lambda>y. fst y = k) (display_base_rows base)) (filter (\<lambda>y. fst y = k) base)"
    unfolding display_base_rows_def by (intro allI) (rule top_rows(4))
  have b5: "distinct base \<longrightarrow> distinct (display_base_rows base)"
    unfolding display_base_rows_def by (intro impI) (rule top_rows(5))
  have b6: "length base = 15 \<longrightarrow> length (display_base_rows base) = 10"
    using b1 by simp
  have b7: "\<exists>rest. mset base = mset (display_base_rows base) + mset rest
          \<and> (\<forall>r\<in>set (display_base_rows base). \<forall>x\<in>set rest. fst x \<le> fst r)"
    unfolding display_base_rows_def by (rule top_rows_largest)
  have n0: "all_nlp_numbers nlp = nlp_records nlp"
    by (rule all_nlp_numbers_records)
  have nm: "\<forall>original scaled word position page.
         (original, scaled, word, position, page) \<in> set (nlp_records nlp) \<longleftrightarrow>
         (\<exists>nums. (page, nums) \<in> set nlp \<and> (original, scaled, word, position) \<in> set nums)"
    by (intro allI) (rule nlp_records_member)
  have n1: "length (display_nlp_rows nlp) = min 10 total"
    unfolding dn len [symmetric] by (rule top_rows(1))
  have n2: "mset (display_nlp_rows nlp) \<subseteq># mset recs"
    unfolding dn by (rule top_rows(2))
  have n3: "sorted_wrt (\<lambda>a b. fst (snd a) \<ge> fst (snd b)) (display_nlp_rows nlp)"
    unfolding dn by (rule top_rows(3))
  have n4: "\<forall>k. prefix (filter (\<lambda>y. fst (snd y) = k) (display_nlp_rows nlp))
                  (filter (\<lambda>y. fst (snd y) = k) recs)"
    unfolding dn by (intro allI) (rule top_rows(4))
  have n5: "distinct recs \<longrightarrow> distinct (display_nlp_rows nlp)"
    unfolding dn by (intro impI) (rule top_rows(5))
  have n6: "total = 15 \<longrightarrow> length (display_nlp_rows nlp) = 10"
    using n1 by simp
  have n7: "\<exists>rest. mset recs = mset (display_nlp_rows nlp) + mset rest
          \<and> (\<forall>r\<in>set (display_nlp_rows nlp). \<forall>x\<in>set rest. fst (snd x) \<le> fst (snd r))"
    unfolding dn by (rule top_rows_largest)
  from b1 b2 b3 b4 b5 b6 b7 n0 nm n1 n2 n3 n4 n5 n6 n7 show ?thesis
    unfolding recs_def total_def by (intro conjI)
qed

theorem top_ten_rows_witness:
  "distinct fifteen_values \<and> length fifteen_values = 15
   \<and> length (display_base_rows fifteen_values) = 10
   \<and> distinct (display_base_rows fifteen_values)
   \<and> map fst (display_base_rows fifteen_values) = [14, 13, 12, 11, 10, 9, 8, 7, 6, 5]
   \<and> map fst (display_base_rows [(1, 1), (2, 1), (2, 2), (1, 2)]) = [2, 2, 1, 1]
   \<and> map snd (display_base_rows [(1, 1), (2, 1), (2, 2), (1, 2)]) = [1, 2, 1, 2]
   \<and> sum_list (map (\<lambda>e. length (snd e)) fifteen_records) = 15
   \<and> distinct (nlp_records fifteen_records)
   \<and> length (display_nlp_rows fifteen_records) = 10
   \<and> distinct (display_nlp_rows fifteen_records)
   \<and> map (\<lambda>(original, scaled, word, position, page). (original, page)) (display_nlp_rows fifteen_records)
       = [(14, 1), (13, 2), (12, 1), (12, 2), (11, 1), (10, 2), (9, 1), (8, 2), (7, 1), (6, 2)]"
proof -
  have d: "distinct fifteen_values" by code_simp
  have l: "length fifteen_values = 15" by code_simp
  have v: "map fst (display_base_rows fifteen_values) = [14, 13, 12, 11, 10, 9, 8, 7, 6, 5]"
    by code_simp
  have t: "map fst (display_base_rows [(1, 1), (2, 1), (2, 2), (1, 2)]) = [2, 2, 1, 1]
     \<and> map snd (display_base_rows [(1, 1), (2, 1), (2, 2), (1, 2)]) = [1, 2, 1, 2]"
    by code_simp
  have s: "sum_list (map (\<lambda>e. length (snd e)) fifteen_records) = 15" by code_simp
  have dr: "distinct (nlp_records fifteen_records)" by code_simp
  have nv: "map (\<lambda>(original, scaled, word, position, page). (original, page)) (display_nlp_rows fifteen_records)
       = [(14, 1), (13, 2), (12, 1), (12, 2), (11, 1), (10, 2), (9, 1), (8, 2), (7, 1), (6, 2)]"
    by code_simp
  from top_ten_rows [of fifteen_values fifteen_records] d l
  have a: "length (display_base_rows fifteen_values) = 10" "distinct (display_base_rows fifteen_values)"
    by blast+
  from top_ten_rows [of fifteen_values fifteen_records] dr s
  have b: "length (display_nlp_rows fifteen_records) = 10" "distinct (display_nlp_rows fifteen_records)"
    by simp_all
  from d l v t s dr nv a b show ?thesis by (intro conjI) simp_all
qed

subsection \<open>The selectors\<close>

lemma max_loop_first_max:
  "\<exists>pre post. first_max key (b # xs) pre (max_loop key b xs) post"
proof (induction xs arbitrary: b)
  case Nil
  have "first_max key [b] [] b []" by (simp add: first_max_def)
  then show ?case by auto
next
  case (Cons x xs)
  define b' where "b' = (if key x > key b then x else b)"
  define m where "m = max_loop key b' xs"
  from Cons.IH [of b'] obtain pre post where fm: "first_max key (b' # xs) pre m post"
    unfolding m_def by blast
  from fm have eq: "b' # xs = pre @ m # post" by (simp add: first_max_def)
  from fm have lt: "\<forall>y\<in>set pre. key y < key m" by (simp add: first_max_def)
  from fm have le: "\<forall>y\<in>set post. key y \<le> key m" by (simp add: first_max_def)
  have b'le: "key b' \<le> key m"
  proof (cases pre)
    case Nil
    with eq show ?thesis by simp
  next
    case (Cons p ps)
    with eq lt show ?thesis by auto
  qed
  have ml: "max_loop key b (x # xs) = m" by (simp add: m_def b'_def)
  show ?case
  proof (cases "key x > key b")
    case True
    then have b': "b' = x" by (simp add: b'_def)
    have "b # x # xs = (b # pre) @ m # post" using eq b' by simp
    moreover have "key b < key m" using True b'le b' by simp
    ultimately have "first_max key (b # x # xs) (b # pre) m post"
      using lt le by (simp add: first_max_def)
    then show ?thesis unfolding ml by blast
  next
    case False
    then have b': "b' = b" by (simp add: b'_def)
    show ?thesis
    proof (cases pre)
      case Nil
      with eq b' have "m = b" and "xs = post" by simp_all
      then have "first_max key (b # x # xs) [] m (x # post)"
        using False le by (simp add: first_max_def)
      then show ?thesis unfolding ml by blast
    next
      case (Cons p ps)
      with eq b' have p: "p = b" and xs: "xs = ps @ m # post" by simp_all
      have "key b < key m" using lt Cons p by simp
      then have "key x < key m" using False by simp
      then have "first_max key (b # x # xs) (b # x # ps) m post"
        using lt le Cons p xs by (simp add: first_max_def)
      then show ?thesis unfolding ml by blast
    qed
  qed
qed

lemma step_assoc:
  fixes key :: "'a \<Rightarrow> rat"
  shows "(let h' = (if key x > key h then x else h) in if key h' > key b then h' else b)
       = (let b' = (if key h > key b then h else b) in if key x > key b' then x else b')"
  by (auto simp add: Let_def)

lemma max_loop_merge:
  "(let m = max_loop key h t in if key m > key b then m else b)
   = max_loop key (if key h > key b then h else b) t"
proof (induction t arbitrary: h b)
  case Nil
  then show ?case by simp
next
  case (Cons x t)
  have "(let m = max_loop key h (x # t) in if key m > key b then m else b)
      = (let m = max_loop key (if key x > key h then x else h) t in if key m > key b then m else b)"
    by simp
  also have "\<dots> = max_loop key (let h' = (if key x > key h then x else h) in if key h' > key b then h' else b) t"
    using Cons.IH [of "if key x > key h then x else h" b] by (simp add: Let_def)
  also have "\<dots> = max_loop key (let b' = (if key h > key b then h else b) in if key x > key b' then x else b') t"
    by (simp only: step_assoc)
  also have "\<dots> = max_loop key (if key h > key b then h else b) (x # t)"
    by (simp add: Let_def)
  finally show ?case .
qed

lemma max_loop_append:
  "max_loop key b (xs @ ys) = max_loop key (max_loop key b xs) ys"
  by (induction xs arbitrary: b) auto


lemma max_default_append:
  "py_max_default key (xs @ ys) =
     first_of_maxima key (py_max_default key xs) (py_max_default key ys)"
proof (cases xs)
  case Nil
  then show ?thesis by simp
next
  case xs: (Cons h t)
  show ?thesis
  proof (cases ys)
    case Nil
    with xs show ?thesis by simp
  next
    case (Cons h' t')
    have "max_loop key h (t @ h' # t') = max_loop key (max_loop key h t) (h' # t')"
      by (rule max_loop_append)
    also have "\<dots> = max_loop key (if key h' > key (max_loop key h t) then h' else max_loop key h t) t'"
      by simp
    also have "\<dots> = (let m = max_loop key h' t' in
                       if key m > key (max_loop key h t) then m else max_loop key h t)"
      by (rule max_loop_merge [symmetric])
    finally show ?thesis using xs Cons by (simp add: Let_def)
  qed
qed

lemma page_maxima_flat:
  "\<exists>ms. page_maxima nlp = Inr ms
        \<and> py_max_default scaled_of ms = py_max_default scaled_of (concat (map snd nlp))"
proof (induction nlp)
  case Nil
  then show ?case by simp
next
  case (Cons entry nlp)
  obtain page_num page where entry: "entry = (page_num, page)" by (cases entry)
  from Cons.IH obtain ms where ms: "page_maxima nlp = Inr ms"
    and eq: "py_max_default scaled_of ms = py_max_default scaled_of (concat (map snd nlp))"
    by blast
  show ?case
  proof (cases page)
    case Nil
    with entry ms eq show ?thesis by simp
  next
    case (Cons h t)
    then have pm: "page_maxima (entry # nlp) = Inr (max_loop scaled_of h t # ms)"
      using entry ms by simp
    have "py_max_default scaled_of (max_loop scaled_of h t # ms)
        = first_of_maxima scaled_of (Some (max_loop scaled_of h t)) (py_max_default scaled_of ms)"
      using max_default_append [of scaled_of "[max_loop scaled_of h t]" ms] by simp
    also have "\<dots> = first_of_maxima scaled_of (py_max_default scaled_of page)
                          (py_max_default scaled_of (concat (map snd nlp)))"
      using Cons eq by simp
    also have "\<dots> = py_max_default scaled_of (page @ concat (map snd nlp))"
      by (rule max_default_append [symmetric])
    finally show ?thesis using pm entry by simp
  qed
qed

lemma all_nlp_numbers_Cons:
  "all_nlp_numbers ((page, nums) # rest) = map (attach_page page) nums @ all_nlp_numbers rest"
  by (simp add: all_nlp_numbers_def attach_page_def [abs_def])

lemma all_nlp_numbers_Nil: "all_nlp_numbers [] = []"
  by (simp add: all_nlp_numbers_def)

lemma key_attach: "fst (snd (attach_page page x)) = scaled_of x"
  by (cases x) (simp add: attach_page_def scaled_of_def)

lemma all_nlp_numbers_empty:
  "all_nlp_numbers nlp = [] \<longleftrightarrow> concat (map snd nlp) = []"
  by (induction nlp) (auto simp add: all_nlp_numbers_Nil all_nlp_numbers_Cons)

lemma page_lookup:
  "first_max scaled_of (concat (map snd nlp)) pre l post \<Longrightarrow>
   \<exists>page pre5 post5.
      py_next (map fst (filter (\<lambda>(page, nums). l \<in> set nums) nlp)) = Inr page
    \<and> first_max (\<lambda>y. fst (snd y)) (all_nlp_numbers nlp) pre5 (attach_page page l) post5"
proof (induction nlp arbitrary: pre)
  case Nil
  then show ?case by (simp add: first_max_def)
next
  case (Cons entry nlp)
  obtain p nums where entry: "entry = (p, nums)" by (cases entry)
  from Cons.prems entry have eq: "nums @ concat (map snd nlp) = pre @ l # post"
    and lt: "\<forall>y\<in>set pre. scaled_of y < scaled_of l"
    and le: "\<forall>y\<in>set post. scaled_of y \<le> scaled_of l"
    by (simp_all add: first_max_def)
  show ?case
  proof (cases "l \<in> set nums")
    case True
    have "\<not> prefix nums pre"
    proof
      assume "prefix nums pre"
      then have "set nums \<subseteq> set pre" by (auto simp add: prefix_def)
      with True lt show False by auto
    qed
    then have np: "\<And>us. nums @ us \<noteq> pre" by (auto simp add: prefix_def)
    from eq obtain us where us: "nums = pre @ us" "us @ concat (map snd nlp) = l # post"
      using np by (auto simp add: append_eq_append_conv2)
    have "us \<noteq> []" using us(1) np [of "[]"] by auto
    then obtain u r where u: "us = u # r" by (cases us) auto
    with us have nums: "nums = pre @ l # r" and post: "post = r @ concat (map snd nlp)"
      by simp_all
    have "all_nlp_numbers (entry # nlp)
        = map (attach_page p) pre @ attach_page p l # (map (attach_page p) r @ all_nlp_numbers nlp)"
      by (simp add: entry all_nlp_numbers_Cons nums)
    moreover have "\<forall>y\<in>set (map (attach_page p) pre). fst (snd y) < fst (snd (attach_page p l))"
      using lt by (simp add: key_attach)
    moreover have "\<forall>y\<in>set (map (attach_page p) r @ all_nlp_numbers nlp).
                     fst (snd y) \<le> fst (snd (attach_page p l))"
    proof
      fix y assume "y \<in> set (map (attach_page p) r @ all_nlp_numbers nlp)"
      then consider x where "x \<in> set r" "y = attach_page p x" | "y \<in> set (all_nlp_numbers nlp)"
        by auto
      then show "fst (snd y) \<le> fst (snd (attach_page p l))"
      proof cases
        case 1
        then show ?thesis using le post by (simp add: key_attach)
      next
        case 2
        then obtain q ns x where "(q, ns) \<in> set nlp" "x \<in> set ns" "y = attach_page q x"
          by (auto simp add: all_nlp_numbers_def attach_page_def)
        then have "x \<in> set post" using post by force
        with le \<open>y = attach_page q x\<close> show ?thesis by (simp add: key_attach)
      qed
    qed
    ultimately have "first_max (\<lambda>y. fst (snd y)) (all_nlp_numbers (entry # nlp))
        (map (attach_page p) pre) (attach_page p l) (map (attach_page p) r @ all_nlp_numbers nlp)"
      by (simp add: first_max_def)
    moreover have "py_next (map fst (filter (\<lambda>(page, nums). l \<in> set nums) (entry # nlp))) = Inr p"
      using True entry by simp
    ultimately show ?thesis by blast
  next
    case False
    have nl: "\<And>us. nums \<noteq> pre @ l # us" using False by auto
    from eq consider us where "nums = pre @ us" "us @ concat (map snd nlp) = l # post"
      | us where "nums @ us = pre" "concat (map snd nlp) = us @ l # post"
      by (auto simp add: append_eq_append_conv2)
    then obtain pre' where pre: "pre = nums @ pre'"
      and rest: "concat (map snd nlp) = pre' @ l # post"
    proof cases
      case 1
      have "us = []"
      proof (cases us)
        case Nil
        then show ?thesis .
      next
        case (Cons u r)
        with 1 nl [of r] show ?thesis by simp
      qed
      with 1 that [of "[]"] show ?thesis by simp
    next
      case 2
      with that [of us] show ?thesis by simp
    qed
    have "first_max scaled_of (concat (map snd nlp)) pre' l post"
      using rest lt le pre by (simp add: first_max_def)
    from Cons.IH [OF this] obtain page pre5 post5 where
      nx: "py_next (map fst (filter (\<lambda>(page, nums). l \<in> set nums) nlp)) = Inr page"
      and fm: "first_max (\<lambda>y. fst (snd y)) (all_nlp_numbers nlp) pre5 (attach_page page l) post5"
      by blast
    have "first_max (\<lambda>y. fst (snd y)) (all_nlp_numbers (entry # nlp))
            (map (attach_page p) nums @ pre5) (attach_page page l) post5"
      using fm lt pre by (auto simp add: first_max_def entry all_nlp_numbers_Cons key_attach)
    moreover have "py_next (map fst (filter (\<lambda>(page, nums). l \<in> set nums) (entry # nlp))) = Inr page"
      using False entry nx by simp
    ultimately show ?thesis by blast
  qed
qed


lemma largest_base:
  assumes "nums \<noteq> []"
  shows "\<exists>pre m post. find_largest_number nums = Inr (Some m) \<and> first_max fst nums pre m post"
proof -
  from assms obtain h t where nums: "nums = h # t" by (cases nums) auto
  from max_loop_first_max [of fst h t] obtain pre post
    where "first_max fst (h # t) pre (max_loop fst h t) post" by blast
  moreover have "find_largest_number nums = Inr (Some (max_loop fst h t))"
    by (simp add: find_largest_number_def nums)
  ultimately show ?thesis using nums by blast
qed

lemma largest_nlp_none:
  assumes "all_nlp_numbers nlp = []"
  shows "find_largest_nlp_number nlp = Inr None"
proof -
  from assms have flat: "concat (map snd nlp) = []" by (simp only: all_nlp_numbers_empty)
  from page_maxima_flat [of nlp] obtain ms where ms: "page_maxima nlp = Inr ms"
    and eq: "py_max_default scaled_of ms = py_max_default scaled_of (concat (map snd nlp))"
    by blast
  from eq flat have "py_max_default scaled_of ms = None" by simp
  with ms show ?thesis by (simp add: find_largest_nlp_number_def)
qed

lemma largest_nlp_some:
  assumes "all_nlp_numbers nlp \<noteq> []"
  shows "\<exists>pre m post. find_largest_nlp_number nlp = Inr (Some m)
           \<and> first_max (\<lambda>y. fst (snd y)) (all_nlp_numbers nlp) pre m post"
proof -
  from assms have "concat (map snd nlp) \<noteq> []" using all_nlp_numbers_empty [of nlp] by blast
  then obtain h t where flat: "concat (map snd nlp) = h # t" by (cases "concat (map snd nlp)") auto
  define l where "l = max_loop scaled_of h t"
  from page_maxima_flat [of nlp] obtain ms where ms: "page_maxima nlp = Inr ms"
    and eq: "py_max_default scaled_of ms = py_max_default scaled_of (concat (map snd nlp))"
    by blast
  from eq flat have largest: "py_max_default scaled_of ms = Some l" by (simp add: l_def)
  from max_loop_first_max [of scaled_of h t] obtain pre post
    where "first_max scaled_of (concat (map snd nlp)) pre l post"
    unfolding flat l_def by blast
  from page_lookup [OF this] obtain page pre5 post5 where
    nx: "py_next (map fst (filter (\<lambda>(page, nums). l \<in> set nums) nlp)) = Inr page"
    and fm: "first_max (\<lambda>y. fst (snd y)) (all_nlp_numbers nlp) pre5 (attach_page page l) post5"
    by blast
  have ne: "nlp \<noteq> []" using flat by auto
  have "find_largest_nlp_number nlp = Inr (Some (attach_page page l))"
    using ne ms largest nx
    by (simp add: find_largest_nlp_number_def attach_page_def split: prod.splits)
  with fm show ?thesis by blast
qed

text \<open>
  Claim C6 as amended: on a non-empty list of pairs the base selector returns the first pair
  of maximal value; on a mapping that holds at least one record the contextual selector
  returns the first record of maximal scaled value, in the order of the pages and of the
  records in a page, with the number of its page; on a mapping without any record (empty, or
  with empty pages only) it returns \<open>None\<close>. For the document \<open>two_page_numbers\<close> the
  base selector returns (1000.00, page 2).
\<close>

theorem selectors_first_maximum:
  "(nums \<noteq> [] \<longrightarrow>
      (\<exists>pre m post. find_largest_number nums = Inr (Some m) \<and> first_max fst nums pre m post))
   \<and> (all_nlp_numbers nlp \<noteq> [] \<longrightarrow>
      (\<exists>pre m post. find_largest_nlp_number nlp = Inr (Some m)
         \<and> first_max (\<lambda>y. fst (snd y)) (all_nlp_numbers nlp) pre m post))
   \<and> (all_nlp_numbers nlp = [] \<longrightarrow> find_largest_nlp_number nlp = Inr None)
   \<and> find_largest_number two_page_numbers = Inr (Some (1000, 2))"
proof (intro conjI impI)
  show "find_largest_number two_page_numbers = Inr (Some (1000, 2))"
    by code_simp
qed (rule largest_base largest_nlp_some largest_nlp_none, assumption)+

text \<open>
  Claim C6 says that the contextual selector returns the record of maximal scaled value for
  every non-empty mapping. A non-empty mapping whose only page has no record has no such
  record, and the selector returns \<open>None\<close>.
\<close>

theorem selector_empty_pages_counterexample:
  "[(1, [])] \<noteq> ([] :: nlp_results) \<and> find_largest_nlp_number [(1, [])] = Inr None"
  by code_simp

theorem selectors_first_maximum_witness:
  "find_largest_number [(2, 1), (9, 1), (9, 2)] = Inr (Some (9, 1))
   \<and> find_largest_nlp_number two_page_results = Inr (Some (7, 7000, ''x'', 4, 1))
   \<and> find_largest_nlp_number [(1, []), (2, [])] = Inr None"
proof -
  have n: "[(2, 1), (9, 1), (9, 2)] \<noteq> ([] :: base_number list)" by simp
  have a: "all_nlp_numbers two_page_results \<noteq> []" by code_simp
  have e: "all_nlp_numbers [(1, []), (2, [])] = []" by code_simp
  have v1: "find_largest_number [(2, 1), (9, 1), (9, 2)] = Inr (Some (9, 1))" by code_simp
  have v2: "find_largest_nlp_number two_page_results = Inr (Some (7, 7000, ''x'', 4, 1))"
    by code_simp
  show ?thesis
    using n a e v1 v2
      selectors_first_maximum [of "[(2, 1), (9, 1), (9, 2)]" two_page_results]
      selectors_first_maximum [of "[(2, 1), (9, 1), (9, 2)]" "[(1, []), (2, [])]"]
    by blast
qed

subsection \<open>The matcher only returns strings of the language\<close>

lemma rx_match_sound:
  "(rest, caps') \<in> set (rx_match r st) \<Longrightarrow>
     \<exists>m d. fst st = m @ rest \<and> rx_lang r m \<and> caps' = d @ snd st \<and> fst ` set d \<subseteq> grp_ids r"
proof (induction r st arbitrary: rest caps' rule: rx_match.induct)
  case (1 c s caps)
  then show ?case by (auto split: list.splits if_splits intro: rx_lang.intros)
next
  case (2 k s caps)
  then show ?case by (auto split: list.splits if_splits intro: rx_lang.intros)
next
  case (3 a b st)
  from "3.prems" obtain st1 where st1: "st1 \<in> set (rx_match a st)"
    and r: "(rest, caps') \<in> set (rx_match b st1)" by auto
  obtain s1 c1 where p: "st1 = (s1, c1)" by (cases st1)
  from "3.IH"(1) [of s1 c1] st1 p obtain m1 d1 where
    a: "fst st = m1 @ s1" "rx_lang a m1" "c1 = d1 @ snd st" "fst ` set d1 \<subseteq> grp_ids a"
    by auto
  from "3.IH"(2) [OF st1, of rest caps'] r p obtain m2 d2 where
    b: "s1 = m2 @ rest" "rx_lang b m2" "caps' = d2 @ c1" "fst ` set d2 \<subseteq> grp_ids b"
    by auto
  have "fst st = (m1 @ m2) @ rest" using a b by simp
  moreover have "rx_lang (Seq a b) (m1 @ m2)" using a b by (auto intro: rx_lang.intros)
  moreover have "caps' = (d2 @ d1) @ snd st" using a b by simp
  moreover have "fst ` set (d2 @ d1) \<subseteq> grp_ids (Seq a b)" using a b by auto
  ultimately show ?case by blast
next
  case (4 a b st)
  from "4.prems" consider "(rest, caps') \<in> set (rx_match a st)" | "(rest, caps') \<in> set (rx_match b st)"
    by auto
  then show ?case
  proof cases
    case 1
    from "4.IH"(1) [OF this] show ?thesis by (auto intro: rx_lang.intros)
  next
    case 2
    from "4.IH"(2) [OF this] show ?thesis by (auto intro: rx_lang.intros)
  qed
next
  case (5 a st)
  from "5.prems" consider "(rest, caps') \<in> set (rx_match a st)" | "(rest, caps') = st"
    by auto
  then show ?case
  proof cases
    case 1
    from "5.IH" [OF this] show ?thesis by (auto intro: rx_lang.intros)
  next
    case 2
    then have "fst st = [] @ rest \<and> rx_lang (Opt a) [] \<and> caps' = [] @ snd st"
      by (auto intro: rx_lang.intros)
    then show ?thesis by (metis empty_subsetI image_empty list.set(1))
  qed
next
  case (6 a s caps)
  from "6.prems" consider
      st1 where "st1 \<in> set (rx_match a (s, caps))" "length (fst st1) < length s"
        "(rest, caps') \<in> set (rx_match (Star a) st1)"
    | "(rest, caps') = (s, caps)"
    by (auto split: if_splits)
  then show ?case
  proof cases
    case 1
    obtain s1 c1 where p: "st1 = (s1, c1)" by (cases st1)
    from "6.IH"(1) [of s1 c1] 1 p obtain m1 d1 where
      a: "s = m1 @ s1" "rx_lang a m1" "c1 = d1 @ caps" "fst ` set d1 \<subseteq> grp_ids a"
      by auto
    from "6.IH"(2) [OF 1(1) 1(2) 1(3)] p obtain m2 d2 where
      b: "s1 = m2 @ rest" "rx_lang (Star a) m2" "caps' = d2 @ c1" "fst ` set d2 \<subseteq> grp_ids a"
      by auto
    have "fst (s, caps) = (m1 @ m2) @ rest" using a b by simp
    moreover have "rx_lang (Star a) (m1 @ m2)" using a b by (auto intro: rx_lang.intros)
    moreover have "caps' = (d2 @ d1) @ snd (s, caps)" using a b by simp
    moreover have "fst ` set (d2 @ d1) \<subseteq> grp_ids (Star a)" using a b by auto
    ultimately show ?thesis by blast
  next
    case 2
    then have "fst (s, caps) = [] @ rest \<and> rx_lang (Star a) [] \<and> caps' = [] @ snd (s, caps)"
      by (auto intro: rx_lang.intros)
    then show ?thesis by (metis empty_subsetI image_empty list.set(1))
  qed
next
  case (7 n a s caps)
  from "7.prems" obtain c1 where
    m: "(rest, c1) \<in> set (rx_match a (s, caps))"
    and c: "caps' = (n, take (length s - length rest) s) # c1"
    by auto
  from "7.IH" [OF m] obtain m1 d1 where
    a: "s = m1 @ rest" "rx_lang a m1" "c1 = d1 @ caps" "fst ` set d1 \<subseteq> grp_ids a"
    by auto
  have "fst (s, caps) = m1 @ rest" using a by simp
  moreover have "rx_lang (Grp n a) m1" using a by (auto intro: rx_lang.intros)
  moreover have "caps' = ((n, m1) # d1) @ snd (s, caps)" using a c by simp
  moreover have "fst ` set ((n, m1) # d1) \<subseteq> grp_ids (Grp n a)" using a by auto
  ultimately show ?case by blast
qed


declare finditer_from.simps [simp del]

lemma finditer_from_none:
  "rx_match r (s, []) = [] \<Longrightarrow>
   finditer_from r pos s = (case s of [] \<Rightarrow> [] | x # s' \<Rightarrow> finditer_from r (Suc pos) s')"
  by (subst finditer_from.simps) simp

lemma finditer_from_some:
  "rx_match r (s, []) = (rest, caps) # others \<Longrightarrow>
   finditer_from r pos s =
     (let n = length s - length rest;
          m = \<lparr>m_start = pos, m_end = pos + n, m_text = take n s, m_groups = caps\<rparr>
      in if n = 0 then (case s of [] \<Rightarrow> [m] | x # s' \<Rightarrow> m # finditer_from r (Suc pos) s')
         else m # finditer_from r (pos + n) (drop n s))"
  by (subst finditer_from.simps) simp

lemma finditer_from_match:
  "m \<in> set (finditer_from r pos s) \<Longrightarrow>
   \<exists>s' rest others. suffix s' s \<and> rx_match r (s', []) = (rest, m_groups m) # others
      \<and> m_text m = take (length s' - length rest) s'
      \<and> m_start m = pos + (length s - length s')"
proof (induction r pos s rule: finditer_from.induct)
  case (1 r pos s)
  show ?case
  proof (cases "rx_match r (s, [])")
    case Nil
    show ?thesis
    proof (cases s)
      case Nil2: Nil
      with Nil "1.prems" show ?thesis by (simp add: finditer_from_none)
    next
      case (Cons x s')
      with Nil "1.prems" have "m \<in> set (finditer_from r (Suc pos) s')"
        by (simp add: finditer_from_none)
      from "1.IH"(1) [OF Nil Cons this] obtain s'' rest others where
        h: "suffix s'' s'" "rx_match r (s'', []) = (rest, m_groups m) # others"
           "m_text m = take (length s'' - length rest) s''"
           "m_start m = Suc pos + (length s' - length s'')"
        by blast
      have "length s'' \<le> length s'" using h(1) by (rule suffix_length_le)
      then have "m_start m = pos + (length s - length s'')" using h(4) Cons by simp
      moreover have "suffix s'' s" using h(1) Cons by (simp add: suffix_Cons)
      ultimately show ?thesis using h by blast
    qed
  next
    case (Cons first others)
    obtain rest caps where first: "first = (rest, caps)" by (cases first)
    define n where "n = length s - length rest"
    define m0 where "m0 = \<lparr>m_start = pos, m_end = pos + n, m_text = take n s, m_groups = caps\<rparr>"
    have rm: "rx_match r (s, []) = (rest, caps) # others" using Cons first by simp
    have here: "\<exists>s' rest others. suffix s' s \<and> rx_match r (s', []) = (rest, m_groups m0) # others
      \<and> m_text m0 = take (length s' - length rest) s'
      \<and> m_start m0 = pos + (length s - length s')"
      using rm by (intro exI [of _ s] exI [of _ rest] exI [of _ others]) (simp add: m0_def n_def)
    show ?thesis
    proof (cases "n = 0")
      case True
      show ?thesis
      proof (cases s)
        case Nil
        with True rm "1.prems" have "m = m0"
          by (simp add: finditer_from_some m0_def n_def)
        with here show ?thesis by simp
      next
        case c: (Cons x s')
        with True rm "1.prems" consider "m = m0" | "m \<in> set (finditer_from r (Suc pos) s')"
          by (auto simp add: finditer_from_some m0_def n_def Let_def)
        then show ?thesis
        proof cases
          case 1
          with here show ?thesis by simp
        next
          case 2
          from "1.IH"(2) [OF Cons first [symmetric] n_def refl True c 2]
          obtain s'' rest' others' where
            h: "suffix s'' s'" "rx_match r (s'', []) = (rest', m_groups m) # others'"
               "m_text m = take (length s'' - length rest') s''"
               "m_start m = Suc pos + (length s' - length s'')"
            by blast
          have "length s'' \<le> length s'" using h(1) by (rule suffix_length_le)
          then have "m_start m = pos + (length s - length s'')" using h(4) c by simp
          moreover have "suffix s'' s" using h(1) c by (simp add: suffix_Cons)
          ultimately show ?thesis using h by blast
        qed
      qed
    next
      case False
      with rm "1.prems" consider "m = m0" | "m \<in> set (finditer_from r (pos + n) (drop n s))"
        by (auto simp add: finditer_from_some m0_def n_def Let_def)
      then show ?thesis
      proof cases
        case 1
        with here show ?thesis by simp
      next
        case 2
        from "1.IH"(3) [OF Cons first [symmetric] n_def refl False 2]
        obtain s'' rest' others' where
          h: "suffix s'' (drop n s)" "rx_match r (s'', []) = (rest', m_groups m) # others'"
             "m_text m = take (length s'' - length rest') s''"
             "m_start m = pos + n + (length (drop n s) - length s'')"
          by blast
        have "length s'' \<le> length (drop n s)" using h(1) by (rule suffix_length_le)
        moreover have "n \<le> length s" by (simp add: n_def)
        ultimately have "m_start m = pos + (length s - length s'')" using h(4) by simp
        moreover have "suffix s'' s" using h(1) suffix_drop suffix_order.trans by blast
        ultimately show ?thesis using h by blast
      qed
    qed
  qed
qed


lemma finditer_from_lang:
  assumes "m \<in> set (finditer_from r pos s)"
  shows "rx_lang r (m_text m)"
proof -
  from finditer_from_match [OF assms] obtain s' rest others where
    h: "rx_match r (s', []) = (rest, m_groups m) # others"
       "m_text m = take (length s' - length rest) s'"
    by blast
  from h(1) have "(rest, m_groups m) \<in> set (rx_match r (s', []))" by simp
  from rx_match_sound [OF this] obtain mm where "s' = mm @ rest" "rx_lang r mm" by auto
  with h(2) show ?thesis by simp
qed

lemma not_digit: "\<not> is_digit CHR '',''" "\<not> is_digit CHR ''.''" "\<not> is_digit CHR ''-''" "\<not> is_digit CHR ''+''"
  by (simp_all add: is_digit_def)

lemma digit_not: "is_digit c \<Longrightarrow> c \<noteq> CHR '','' \<and> c \<noteq> CHR ''.'' \<and> c \<noteq> CHR ''-'' \<and> c \<noteq> CHR ''+''"
  using not_digit by auto

lemma remove_commas_digits: "list_all is_digit ds \<Longrightarrow> remove_commas ds = ds"
  by (induction ds) (auto simp add: remove_commas_def dest: digit_not)

lemma remove_commas_append: "remove_commas (u @ v) = remove_commas u @ remove_commas v"
  by (simp add: remove_commas_def)

lemma star_lang_all:
  assumes "rx_lang (Star a) m"
    and "\<And>u. rx_lang a u \<Longrightarrow> P u"
    and "P []"
    and "\<And>u v. P u \<Longrightarrow> P v \<Longrightarrow> P (u @ v)"
  shows "P m"
  using assms
proof (induction "Star a" m rule: rx_lang.induct)
  case lang_Star_none
  then show ?case by simp
next
  case (lang_Star_more u v)
  then show ?case by blast
qed

lemma digit_lang: "rx_lang digit m \<longleftrightarrow> (\<exists>x. m = [x] \<and> is_digit x)"
  by (auto simp add: digit_def lang_Cls_iff)

lemma star_digit_lang: "rx_lang (Star digit) m \<Longrightarrow> list_all is_digit m"
  by (rule star_lang_all [where a = digit]) (auto simp add: digit_lang)

lemma plus_digit_lang: "rx_lang (plus_rx digit) m \<Longrightarrow> m \<noteq> [] \<and> list_all is_digit m"
  by (auto simp add: plus_rx_def lang_Seq_iff digit_lang dest: star_digit_lang)

lemma rep1to3_lang: "rx_lang (rep1to3 digit) m \<Longrightarrow> m \<noteq> [] \<and> list_all is_digit m"
  by (auto simp add: rep1to3_def lang_Seq_iff lang_Opt_iff digit_lang)

lemma rep3_lang: "rx_lang (rep3 digit) m \<Longrightarrow> list_all is_digit m"
  by (auto simp add: rep3_def lang_Seq_iff digit_lang)

lemma comma_group_lang:
  "rx_lang (Seq (Lit CHR '','') (rep3 digit)) u \<Longrightarrow> list_all is_digit (remove_commas u)"
proof -
  assume "rx_lang (Seq (Lit CHR '','') (rep3 digit)) u"
  then obtain v where u: "u = CHR '','' # v" and v: "rx_lang (rep3 digit) v"
    by (auto simp add: lang_Seq_iff lang_Lit_iff)
  from v have d: "list_all is_digit v" by (rule rep3_lang)
  then have "remove_commas v = v" by (rule remove_commas_digits)
  then have "remove_commas u = v" using u by (simp add: remove_commas_def)
  with d show ?thesis by simp
qed

lemma comma_groups_lang:
  "rx_lang (Star (Seq (Lit CHR '','') (rep3 digit))) m \<Longrightarrow> list_all is_digit (remove_commas m)"
proof (erule star_lang_all)
  fix u assume "rx_lang (Seq (Lit CHR '','') (rep3 digit)) u"
  then show "list_all is_digit (remove_commas u)" by (rule comma_group_lang)
next
  show "list_all is_digit (remove_commas [])" by (simp add: remove_commas_def)
next
  fix u v assume "list_all is_digit (remove_commas u)" "list_all is_digit (remove_commas v)"
  then show "list_all is_digit (remove_commas (u @ v))" by (simp add: remove_commas_append)
qed

lemma fraction_lang:
  "rx_lang fraction_rx m \<Longrightarrow>
     m = [] \<or> (\<exists>fs. m = CHR ''.'' # fs \<and> fs \<noteq> [] \<and> list_all is_digit fs)"
  by (auto simp add: fraction_rx_def lang_Opt_iff lang_Seq_iff lang_Lit_iff dest: plus_digit_lang)

lemma fraction_no_commas: "rx_lang fraction_rx m \<Longrightarrow> remove_commas m = m"
proof -
  assume "rx_lang fraction_rx m"
  then consider "m = []" | fs where "m = CHR ''.'' # fs" "list_all is_digit fs"
    using fraction_lang by blast
  then show ?thesis
  proof cases
    case 1
    then show ?thesis by (simp add: remove_commas_def)
  next
    case 2
    from 2(2) have "remove_commas fs = fs" by (rule remove_commas_digits)
    with 2(1) show ?thesis by (simp add: remove_commas_def)
  qed
qed

lemma sign_lang: "rx_lang (Opt (Cls (OneOf ''-+''))) m \<Longrightarrow> m = [] \<or> m = ''-'' \<or> m = ''+''"
  by (auto simp add: lang_Opt_iff lang_Cls_iff)


lemma grouped_lang:
  assumes "rx_lang grouped_rx m"
  shows "number_shape (remove_commas m)"
proof -
  from assms obtain sg d g f where m: "m = sg @ d @ g @ f"
    and sg: "rx_lang (Opt (Cls (OneOf ''-+''))) sg"
    and d: "rx_lang (rep1to3 digit) d"
    and g: "rx_lang (Star (Seq (Lit CHR '','') (rep3 digit))) g"
    and f: "rx_lang fraction_rx f"
    by (auto simp add: grouped_rx_def lang_Seq_iff)
  from sg have sg': "sg = [] \<or> sg = ''-'' \<or> sg = ''+''" by (rule sign_lang)
  then have rsg: "remove_commas sg = sg" by (auto simp add: remove_commas_def)
  from d have d': "d \<noteq> []" "list_all is_digit d" by (auto dest: rep1to3_lang)
  from d'(2) have rd: "remove_commas d = d" by (rule remove_commas_digits)
  from g have g': "list_all is_digit (remove_commas g)" by (rule comma_groups_lang)
  from f have rf: "remove_commas f = f" by (rule fraction_no_commas)
  have "remove_commas m = sg @ (d @ remove_commas g) @ f"
    by (simp add: m remove_commas_append rsg rd rf)
  moreover have "d @ remove_commas g \<noteq> []" using d' by simp
  moreover have "list_all is_digit (d @ remove_commas g)" using d' g' by simp
  ultimately show ?thesis
    unfolding number_shape_def using sg' fraction_lang [OF f] by blast
qed

lemma plain_lang:
  assumes "rx_lang plain_rx m"
  shows "number_shape (remove_commas m)"
proof -
  from assms obtain d f where m: "m = d @ f"
    and d: "rx_lang (plus_rx digit) d" and f: "rx_lang fraction_rx f"
    by (auto simp add: plain_rx_def lang_Seq_iff)
  from d have d': "d \<noteq> []" "list_all is_digit d" by (auto dest: plus_digit_lang)
  from d'(2) have rd: "remove_commas d = d" by (rule remove_commas_digits)
  from f have rf: "remove_commas f = f" by (rule fraction_no_commas)
  have "remove_commas m = [] @ d @ f"
    by (simp add: m remove_commas_append rd rf)
  then show ?thesis
    unfolding number_shape_def using d' fraction_lang [OF f] by blast
qed

lemma number_lang: "rx_lang number_rx m \<Longrightarrow> number_shape (remove_commas m)"
  by (auto simp add: number_rx_def lang_Alt_iff dest: grouped_lang plain_lang)

lemma unsigned_float_shape:
  assumes ds: "ds \<noteq> []" "list_all is_digit ds"
    and fr: "fr = [] \<or> (\<exists>fs. fr = CHR ''.'' # fs \<and> fs \<noteq> [] \<and> list_all is_digit fs)"
  shows "\<exists>v. unsigned_float (ds @ fr) = Inr v"
proof -
  have all: "\<And>x. x \<in> set ds \<Longrightarrow> is_digit x" using ds(2) by (simp add: list_all_iff)
  have stop: "takeWhile is_digit fr = [] \<and> dropWhile is_digit fr = fr"
    using fr not_digit(2) by auto
  have t: "takeWhile is_digit (ds @ fr) = ds"
    using takeWhile_append2 [of ds is_digit fr] all stop by simp
  have d: "dropWhile is_digit (ds @ fr) = fr"
    using dropWhile_append2 [of ds is_digit fr] all stop by simp
  have u: "unsigned_float (ds @ fr) =
     (case fr of
        [] \<Rightarrow> if ds = [] then Inl ValueError else Inr (of_nat (digits_val ds))
      | c # fp \<Rightarrow>
          if c = CHR ''.'' \<and> list_all is_digit fp \<and> (ds \<noteq> [] \<or> fp \<noteq> [])
          then Inr (of_nat (digits_val ds) + of_nat (digits_val fp) / 10 ^ length fp)
          else Inl ValueError)"
    by (simp only: unsigned_float_def Let_def t d)
  from fr show ?thesis
  proof
    assume "fr = []"
    then show ?thesis unfolding u using ds(1) by simp
  next
    assume "\<exists>fs. fr = CHR ''.'' # fs \<and> fs \<noteq> [] \<and> list_all is_digit fs"
    then obtain fs where "fr = CHR ''.'' # fs" "fs \<noteq> []" "list_all is_digit fs" by blast
    then show ?thesis unfolding u using ds(1) by simp
  qed
qed

lemma number_shape_float:
  assumes "number_shape s"
  shows "\<exists>v. py_float s = Inr v"
proof -
  from assms obtain sg ds fr where s: "s = sg @ ds @ fr"
    and sg: "sg = [] \<or> sg = ''-'' \<or> sg = ''+''"
    and ds: "ds \<noteq> []" "list_all is_digit ds"
    and fr: "fr = [] \<or> (\<exists>fs. fr = CHR ''.'' # fs \<and> fs \<noteq> [] \<and> list_all is_digit fs)"
    unfolding number_shape_def by blast
  from unsigned_float_shape [OF ds fr] obtain v where v: "unsigned_float (ds @ fr) = Inr v"
    by blast
  from ds obtain c cs where c: "ds = c # cs" "is_digit c" by (cases ds) auto
  from c(2) have cn: "c \<noteq> CHR ''-''" "c \<noteq> CHR ''+''" using digit_not by auto
  from sg consider "sg = []" | "sg = ''-''" | "sg = ''+''" by blast
  then show ?thesis
  proof cases
    case 1
    then have "py_float s = unsigned_float (ds @ fr)"
      using s c(1) cn by (simp add: py_float_def)
    with v show ?thesis by simp
  next
    case 2
    then have "py_float s = map_sum id uminus (unsigned_float (ds @ fr))"
      using s by (simp add: py_float_def)
    with v show ?thesis by simp
  next
    case 3
    then have "py_float s = unsigned_float (ds @ fr)"
      using s by (simp add: py_float_def)
    with v show ?thesis by simp
  qed
qed

lemma float_all_converts:
  assumes "\<And>n. n \<in> set nums \<Longrightarrow> \<exists>v. py_float (remove_commas n) = Inr v"
  shows "\<exists>vs. float_all nums = Inr vs \<and> length vs = length nums
           \<and> (\<forall>i<length nums. py_float (remove_commas (nums ! i)) = Inr (vs ! i))"
  using assms
proof (induction nums)
  case Nil
  then show ?case by simp
next
  case (Cons n nums)
  from Cons.prems [of n] obtain v where v: "py_float (remove_commas n) = Inr v" by auto
  from Cons.IH Cons.prems obtain vs where vs: "float_all nums = Inr vs" "length vs = length nums"
    "\<forall>i<length nums. py_float (remove_commas (nums ! i)) = Inr (vs ! i)" by auto
  have "float_all (n # nums) = Inr (v # vs)" using v vs(1) by simp
  moreover have "length (v # vs) = length (n # nums)" using vs(2) by simp
  moreover have "\<forall>i<length (n # nums). py_float (remove_commas ((n # nums) ! i)) = Inr ((v # vs) ! i)"
    using v vs(3) by (auto simp add: nth_Cons split: nat.splits)
  ultimately show ?case by blast
qed

lemma findall_number_converts:
  assumes "n \<in> set (findall number_rx text)"
  shows "\<exists>v. py_float (remove_commas n) = Inr v"
proof -
  from assms obtain m where "m \<in> set (finditer_from number_rx 0 text)" "n = m_text m"
    by (auto simp add: findall_def finditer_def)
  then have "rx_lang number_rx n" using finditer_from_lang by blast
  then show ?thesis by (intro number_shape_float number_lang)
qed

lemma context_rx_caps:
  assumes "(rest, caps) \<in> set (rx_match context_rx (s, []))"
  shows "\<exists>g. map_of caps 1 = Some g \<and> rx_lang number_rx g"
proof -
  define tail where "tail = Seq (Star space) (Opt (Grp 2 (plus_rx (Cls Word))))"
  have ids: "grp_ids tail = {2}" by (simp add: tail_def space_def plus_rx_def)
  define g1 where "g1 = rx_match (Grp 1 number_rx) (s, [])"
  have "rx_match context_rx (s, []) = concat (map (rx_match tail) g1)"
    by (simp only: context_rx_def tail_def g1_def rx_match.simps(3))
  with assms obtain st1 where st1: "st1 \<in> set g1"
    and r: "(rest, caps) \<in> set (rx_match tail st1)"
    by auto
  have "g1 = map (\<lambda>(s', caps'). (s', (1, take (length s - length s') s) # caps'))
                 (rx_match number_rx (s, []))"
    by (simp only: g1_def rx_match.simps(7))
  with st1 obtain s1 c1 where n: "(s1, c1) \<in> set (rx_match number_rx (s, []))"
    and p: "st1 = (s1, (1, take (length s - length s1) s) # c1)"
    by auto
  from rx_match_sound [OF n] obtain m1 where m1: "s = m1 @ s1" "rx_lang number_rx m1" by auto
  from rx_match_sound [OF r] obtain d where d: "caps = d @ snd st1" "fst ` set d \<subseteq> grp_ids tail"
    by auto
  from d(2) ids have "1 \<notin> fst ` set d" by auto
  then have "map_of d 1 = None" by (simp add: map_of_eq_None_iff)
  then have "map_of caps 1 = Some m1" using d(1) p m1(1) by (simp add: map_add_def)
  with m1(2) show ?thesis by blast
qed

lemma context_group1:
  assumes "m \<in> set (context_matches text)"
  shows "\<exists>g. group m 1 = Some g \<and> rx_lang number_rx g"
proof -
  from assms have "m \<in> set (finditer_from context_rx 0 (lower text))"
    by (simp add: context_matches_def finditer_def)
  from finditer_from_match [OF this] obtain s' rest others where
    "rx_match context_rx (s', []) = (rest, m_groups m) # others" by blast
  then have "(rest, m_groups m) \<in> set (rx_match context_rx (s', []))" by simp
  from context_rx_caps [OF this] show ?thesis by (simp add: group_def)
qed

lemma context_match_converts:
  assumes "m \<in> set (context_matches text)"
  shows "\<exists>v. py_float (remove_commas (group1 m)) = Inr v"
proof -
  from context_group1 [OF assms] obtain g where "group m 1 = Some g" "rx_lang number_rx g"
    by blast
  then have "group1 m = g" "number_shape (remove_commas g)"
    by (simp_all add: group1_def number_lang)
  then show ?thesis using number_shape_float by simp
qed

lemma update_scale_numbers: "numbers (update_scale text position st) = numbers st"
  by (simp add: update_scale_def split: list.splits)

lemma context_step_skip:
  "py_float (remove_commas (group1 m)) = Inl e \<Longrightarrow> context_step text st m = st"
  by (simp add: context_step_def)

lemma context_step_length:
  "py_float (remove_commas (group1 m)) = Inr v \<Longrightarrow>
   length (numbers (context_step text st m)) = Suc (length (numbers st))"
  by (simp add: context_step_def Let_def update_scale_numbers)

lemma context_loop_length:
  assumes "\<And>m. m \<in> set ms \<Longrightarrow> \<exists>v. py_float (remove_commas (group1 m)) = Inr v"
  shows "length (numbers (foldl (context_step text) st ms)) = length (numbers st) + length ms"
  using assms
proof (induction ms arbitrary: st)
  case Nil
  then show ?case by simp
next
  case (Cons m ms)
  from Cons.prems [of m] obtain v where "py_float (remove_commas (group1 m)) = Inr v" by auto
  then have "length (numbers (context_step text st m)) = Suc (length (numbers st))"
    by (rule context_step_length)
  moreover have "length (numbers (foldl (context_step text) (context_step text st m) ms))
      = length (numbers (context_step text st m)) + length ms"
    using Cons.prems by (intro Cons.IH) auto
  ultimately show ?case by simp
qed

lemma context_no_skip:
  "length (extract_numbers_with_context text) = length (context_matches text)"
proof -
  have "length (numbers (foldl (context_step text) (initial_state text) (context_matches text)))
      = length (numbers (initial_state text)) + length (context_matches text)"
    by (rule context_loop_length) (rule context_match_converts)
  moreover have "numbers (initial_state text) = []"
    by (simp add: initial_state_def)
  ultimately show ?thesis
    by (simp add: extract_numbers_with_context_def)
qed

lemma base_extraction_converts:
  "\<exists>vs. extract_all_numbers text = Inr vs \<and> length vs = length (findall number_rx text)
        \<and> (\<forall>i<length vs. py_float (remove_commas (findall number_rx text ! i)) = Inr (vs ! i))"
proof -
  have "\<exists>vs. float_all (findall number_rx text) = Inr vs
           \<and> length vs = length (findall number_rx text)
           \<and> (\<forall>i<length (findall number_rx text).
                 py_float (remove_commas (findall number_rx text ! i)) = Inr (vs ! i))"
    by (rule float_all_converts) (rule findall_number_converts)
  then obtain vs where "float_all (findall number_rx text) = Inr vs"
    and l: "length vs = length (findall number_rx text)"
    and "\<forall>i<length (findall number_rx text).
           py_float (remove_commas (findall number_rx text ! i)) = Inr (vs ! i)"
    by blast
  then have "extract_all_numbers text = Inr vs \<and> length vs = length (findall number_rx text)
        \<and> (\<forall>i<length vs. py_float (remove_commas (findall number_rx text ! i)) = Inr (vs ! i))"
    unfolding extract_all_numbers_def l by simp
  then show ?thesis ..
qed

text \<open>
  Claim C8: for every text, the base extraction raises nothing and returns one value per
  matched substring, each the result of \<open>float\<close> on that substring with its commas
  removed. In the contextual extraction a match whose number does not convert is skipped and
  leaves the state of the loop as it was, so that the scan goes on; the number of every match
  of the pattern converts, so no match is in fact skipped.
\<close>

theorem extraction_never_raises:
  "(\<exists>vs. extract_all_numbers text = Inr vs \<and> length vs = length (findall number_rx text)
        \<and> (\<forall>i<length vs. py_float (remove_commas (findall number_rx text ! i)) = Inr (vs ! i)))
   \<and> (\<forall>st m e. py_float (remove_commas (group1 m)) = Inl e \<longrightarrow> context_step text st m = st)
   \<and> (\<forall>m\<in>set (context_matches text). \<exists>v. py_float (remove_commas (group1 m)) = Inr v)
   \<and> length (extract_numbers_with_context text) = length (context_matches text)"
proof (intro conjI allI impI ballI)
  show "\<exists>vs. extract_all_numbers text = Inr vs \<and> length vs = length (findall number_rx text)
        \<and> (\<forall>i<length vs. py_float (remove_commas (findall number_rx text ! i)) = Inr (vs ! i))"
    by (rule base_extraction_converts)
next
  fix st m e assume "py_float (remove_commas (group1 m)) = Inl e"
  then show "context_step text st m = st" by (rule context_step_skip)
next
  fix m assume "m \<in> set (context_matches text)"
  then show "\<exists>v. py_float (remove_commas (group1 m)) = Inr v" by (rule context_match_converts)
next
  show "length (extract_numbers_with_context text) = length (context_matches text)"
    by (rule context_no_skip)
qed

theorem extraction_never_raises_witness:
  "extract_all_numbers comma_text = Inr [2469 / 2, - 7]
   \<and> findall number_rx comma_text = [''1,234.5'', ''-7'']
   \<and> length (extract_numbers_with_context comma_text) = 2
   \<and> py_float (remove_commas (group1 empty_match)) = Inl ValueError
   \<and> context_step comma_text (initial_state comma_text) empty_match = initial_state comma_text"
proof -
  have f: "findall number_rx comma_text = [''1,234.5'', ''-7'']" by code_simp
  have v0: "py_float (remove_commas ''1,234.5'') = Inr (2469 / 2)" by code_simp
  have v1: "py_float (remove_commas ''-7'') = Inr (- 7)" by code_simp
  have e: "py_float (remove_commas (group1 empty_match)) = Inl ValueError" by code_simp
  have l: "length (context_matches comma_text) = 2" by code_simp
  have m: "\<forall>m\<in>set (context_matches comma_text). \<exists>v. py_float (remove_commas (group1 m)) = Inr v"
    using extraction_never_raises [of comma_text] by blast
  from extraction_never_raises [of comma_text] obtain vs where
    vs: "extract_all_numbers comma_text = Inr vs"
        "length vs = length (findall number_rx comma_text)"
        "\<forall>i<length vs. py_float (remove_commas (findall number_rx comma_text ! i)) = Inr (vs ! i)"
    by blast
  from extraction_never_raises [of comma_text] have
    sk: "\<forall>st m e. py_float (remove_commas (group1 m)) = Inl e \<longrightarrow> context_step comma_text st m = st"
    and n: "length (extract_numbers_with_context comma_text) = length (context_matches comma_text)"
    by blast+
  have len: "length vs = 2" using vs(2) f by simp
  have "py_float (remove_commas (findall number_rx comma_text ! 0)) = Inr (vs ! 0)"
    using vs(3) len by simp
  then have a0: "vs ! 0 = 2469 / 2" using f v0 by simp
  have "py_float (remove_commas (findall number_rx comma_text ! 1)) = Inr (vs ! 1)"
    using vs(3) len by simp
  then have a1: "vs ! 1 = - 7" using f v1 by simp
  have "vs = [2469 / 2, - 7]"
    using len a0 a1 by (simp add: list_eq_iff_nth_eq less_Suc_eq numeral_2_eq_2)
  moreover have "context_step comma_text (initial_state comma_text) empty_match = initial_state comma_text"
    using sk e by blast
  ultimately show ?thesis using vs(1) f e l n by simp
qed

subsection \<open>The pages of a document\<close>

lemma base_values_eq: "extract_all_numbers text = Inr (base_values text)"
  using base_extraction_converts [of "text"] by (auto simp add: base_values_def)

lemma update_fresh: "k \<notin> fst ` set al \<Longrightarrow> AList.update k v al = al @ [(k, v)]"
  by (induction al) auto

lemma nlp_from_keys: "(p, recs) \<in> set (nlp_from k pages) \<Longrightarrow> k \<le> p \<and> recs \<noteq> []"
proof (induction pages arbitrary: k)
  case Nil
  then show ?case by simp
next
  case (Cons t pages)
  from Cons.prems consider "p = k" "recs = extract_numbers_with_context t" "recs \<noteq> []"
    | "(p, recs) \<in> set (nlp_from (Suc k) pages)"
    by (auto split: if_splits)
  then show ?case
  proof cases
    case 1
    then show ?thesis by simp
  next
    case 2
    from Cons.IH [OF this] show ?thesis by simp
  qed
qed

lemma process_pages_result:
  "\<forall>p\<in>fst ` set nlp. p < k \<Longrightarrow>
   process_pages k pages (base, nlp) = Inr (base @ base_from k pages, nlp @ nlp_from k pages)"
proof (induction pages arbitrary: k base nlp)
  case Nil
  then show ?case by simp
next
  case (Cons t pages)
  define recs where "recs = extract_numbers_with_context t"
  define nlp' where "nlp' = (if recs \<noteq> [] then AList.update k recs nlp else nlp)"
  have fresh: "k \<notin> fst ` set nlp" using Cons.prems by auto
  have nlp': "nlp' = nlp @ (if recs \<noteq> [] then [(k, recs)] else [])"
    using update_fresh [OF fresh] by (simp add: nlp'_def)
  have keys: "\<forall>p\<in>fst ` set nlp'. p < Suc k"
    using Cons.prems by (auto simp add: nlp' split: if_splits)
  have "process_pages k (t # pages) (base, nlp)
      = process_pages (Suc k) pages (base @ map (\<lambda>num. (num, k)) (base_values t), nlp')"
    by (simp add: base_values_eq nlp'_def recs_def Let_def)
  also have "\<dots> = Inr ((base @ map (\<lambda>num. (num, k)) (base_values t)) @ base_from (Suc k) pages,
                       nlp' @ nlp_from (Suc k) pages)"
    using keys by (rule Cons.IH)
  also have "\<dots> = Inr (base @ base_from k (t # pages), nlp @ nlp_from k (t # pages))"
    by (simp add: nlp' recs_def)
  finally show ?case .
qed

lemma nlp_from_lookup:
  "i < length pages \<Longrightarrow>
   map_of (nlp_from k pages) (k + i) =
     (if extract_numbers_with_context (pages ! i) = [] then None
      else Some (extract_numbers_with_context (pages ! i)))"
proof (induction pages arbitrary: k i)
  case Nil
  then show ?case by simp
next
  case (Cons t pages)
  have later: "map_of (nlp_from (Suc k) pages) k = None"
  proof (rule ccontr)
    assume "map_of (nlp_from (Suc k) pages) k \<noteq> None"
    then obtain recs where "(k, recs) \<in> set (nlp_from (Suc k) pages)"
      by (auto dest: map_of_SomeD)
    from nlp_from_keys [OF this] show False by simp
  qed
  show ?case
  proof (cases i)
    case 0
    then show ?thesis using later by (simp add: map_add_def)
  next
    case (Suc j)
    with Cons.prems have "j < length pages" by simp
    from Cons.IH [OF this, of "Suc k"] Suc show ?thesis
      by (simp add: map_add_def)
  qed
qed

lemma base_from_member:
  "i < length pages \<Longrightarrow> v \<in> set (base_values (pages ! i)) \<Longrightarrow>
   (v, k + i) \<in> set (base_from k pages)"
proof (induction pages arbitrary: k i)
  case Nil
  then show ?case by simp
next
  case (Cons t pages)
  show ?case
  proof (cases i)
    case 0
    with Cons.prems show ?thesis by auto
  next
    case (Suc j)
    with Cons.prems have "j < length pages" "v \<in> set (base_values (pages ! j))" by simp_all
    from Cons.IH [OF this, of "Suc k"] Suc show ?thesis by simp
  qed
qed

text \<open>
  Claim C10: \<open>process_pdf\<close> raises nothing. A page whose contextual extraction has no
  record has no key in the mapping of the contextual results; a page with records is mapped
  to them; no key is mapped to an empty list. Every value of the base extraction of a page
  is in the list of base numbers with the number of the page.
\<close>

theorem empty_pages_absent:
  "\<exists>all_numbers nlp. process_pdf pages = Inr (all_numbers, nlp)
     \<and> (\<forall>i<length pages. extract_numbers_with_context (pages ! i) = [] \<longrightarrow>
            map_of nlp (Suc i) = None)
     \<and> (\<forall>i<length pages. extract_numbers_with_context (pages ! i) \<noteq> [] \<longrightarrow>
            map_of nlp (Suc i) = Some (extract_numbers_with_context (pages ! i)))
     \<and> (\<forall>p recs. (p, recs) \<in> set nlp \<longrightarrow> recs \<noteq> [])
     \<and> (\<forall>i<length pages. \<forall>vs. extract_all_numbers (pages ! i) = Inr vs \<longrightarrow>
            (\<forall>v\<in>set vs. (v, Suc i) \<in> set all_numbers))"
proof -
  have r: "process_pdf pages = Inr (base_from 1 pages, nlp_from 1 pages)"
    using process_pages_result [of "[]" 1 pages "[]"] by (simp add: process_pdf_def)
  have a: "\<forall>i<length pages. extract_numbers_with_context (pages ! i) = [] \<longrightarrow>
            map_of (nlp_from 1 pages) (Suc i) = None"
    using nlp_from_lookup [of _ pages 1] by simp
  have b: "\<forall>i<length pages. extract_numbers_with_context (pages ! i) \<noteq> [] \<longrightarrow>
            map_of (nlp_from 1 pages) (Suc i) = Some (extract_numbers_with_context (pages ! i))"
    using nlp_from_lookup [of _ pages 1] by simp
  have c: "\<forall>p recs. (p, recs) \<in> set (nlp_from 1 pages) \<longrightarrow> recs \<noteq> []"
    using nlp_from_keys by blast
  have d: "\<forall>i<length pages. \<forall>vs. extract_all_numbers (pages ! i) = Inr vs \<longrightarrow>
            (\<forall>v\<in>set vs. (v, Suc i) \<in> set (base_from 1 pages))"
  proof (intro allI impI ballI)
    fix i vs v assume i: "i < length pages" and e: "extract_all_numbers (pages ! i) = Inr vs"
      and v: "v \<in> set vs"
    from e have "base_values (pages ! i) = vs" by (simp add: base_values_def)
    with v base_from_member [OF i, of v 1] show "(v, Suc i) \<in> set (base_from 1 pages)" by simp
  qed
  from r a b c d show ?thesis by blast
qed

theorem empty_pages_absent_witness:
  "length two_pages = 2
   \<and> extract_numbers_with_context (two_pages ! 0) = []
   \<and> extract_numbers_with_context (two_pages ! 1) = [(5, 5, ''million'', 0)]
   \<and> extract_all_numbers (two_pages ! 1) = Inr [5]
   \<and> process_pdf two_pages = Inr ([(5, 2)], [(2, [(5, 5, ''million'', 0)])])
   \<and> map_of [(2, [(5, 5, ''million'', 0 :: nat) :: nlp_number])] (Suc 0) = None
   \<and> (5, Suc 1) \<in> set [(5 :: rat, 2 :: nat)]"
proof -
  have l: "length two_pages = 2" by code_simp
  have e0: "extract_numbers_with_context (two_pages ! 0) = []" by code_simp
  have e1: "extract_numbers_with_context (two_pages ! 1) = [(5, 5, ''million'', 0)]" by code_simp
  have b1: "extract_all_numbers (two_pages ! 1) = Inr [5]" by code_simp
  have p: "process_pdf two_pages = Inr ([(5, 2)], [(2, [(5, 5, ''million'', 0)])])" by code_simp
  from empty_pages_absent [of two_pages] obtain all_numbers nlp where
    r: "process_pdf two_pages = Inr (all_numbers, nlp)"
    and a: "\<forall>i<length two_pages. extract_numbers_with_context (two_pages ! i) = [] \<longrightarrow>
            map_of nlp (Suc i) = None"
    and d: "\<forall>i<length two_pages. \<forall>vs. extract_all_numbers (two_pages ! i) = Inr vs \<longrightarrow>
            (\<forall>v\<in>set vs. (v, Suc i) \<in> set all_numbers)"
    by blast
  from r p have eq: "all_numbers = [(5, 2)]" "nlp = [(2, [(5, 5, ''million'', 0)])]" by simp_all
  have "0 < length two_pages" using l by simp
  with a e0 have "map_of nlp (Suc 0) = None" by blast
  moreover have "1 < length two_pages" using l by simp
  with d b1 have "(5, Suc 1) \<in> set all_numbers" by fastforce
  ultimately show ?thesis using l e0 e1 b1 p eq by simp
qed

subsection \<open>Table boundaries are consumed one at a time\<close>

lemma finditer_from_sorted:
  "sorted_wrt (<) (map m_start (finditer_from r pos s))
   \<and> (\<forall>m\<in>set (finditer_from r pos s). pos \<le> m_start m)"
proof (induction r pos s rule: finditer_from.induct)
  case (1 r pos s)
  show ?case
  proof (cases "rx_match r (s, [])")
    case Nil
    show ?thesis
    proof (cases s)
      case Nil2: Nil
      with Nil show ?thesis by (simp add: finditer_from_none)
    next
      case (Cons x s')
      from "1.IH"(1) [OF Nil Cons] have
        "sorted_wrt (<) (map m_start (finditer_from r (Suc pos) s'))"
        "\<forall>m\<in>set (finditer_from r (Suc pos) s'). Suc pos \<le> m_start m" by blast+
      then show ?thesis using Nil Cons by (auto simp add: finditer_from_none)
    qed
  next
    case (Cons first others)
    obtain rest caps where first: "first = (rest, caps)" by (cases first)
    define n where "n = length s - length rest"
    define m0 where "m0 = \<lparr>m_start = pos, m_end = pos + n, m_text = take n s, m_groups = caps\<rparr>"
    have rm: "rx_match r (s, []) = (rest, caps) # others" using Cons first by simp
    have st: "m_start m0 = pos" by (simp add: m0_def)
    show ?thesis
    proof (cases "n = 0")
      case True
      show ?thesis
      proof (cases s)
        case Nil
        with True rm have "finditer_from r pos s = [m0]"
          by (simp add: finditer_from_some m0_def n_def)
        with st show ?thesis by simp
      next
        case c: (Cons x s')
        with True rm have f: "finditer_from r pos s = m0 # finditer_from r (Suc pos) s'"
          by (simp add: finditer_from_some m0_def n_def Let_def)
        from "1.IH"(2) [OF Cons first [symmetric] n_def refl True c] have
          "sorted_wrt (<) (map m_start (finditer_from r (Suc pos) s'))"
          "\<forall>m\<in>set (finditer_from r (Suc pos) s'). Suc pos \<le> m_start m" by blast+
        then show ?thesis unfolding f using st by auto
      qed
    next
      case False
      with rm have f: "finditer_from r pos s = m0 # finditer_from r (pos + n) (drop n s)"
        by (simp add: finditer_from_some m0_def n_def Let_def)
      from "1.IH"(3) [OF Cons first [symmetric] n_def refl False] have
        "sorted_wrt (<) (map m_start (finditer_from r (pos + n) (drop n s)))"
        "\<forall>m\<in>set (finditer_from r (pos + n) (drop n s)). pos + n \<le> m_start m" by blast+
      then show ?thesis unfolding f using st False by auto
    qed
  qed
qed

lemma context_step_fields:
  assumes "py_float (remove_commas (group1 m)) = Inr v"
  shows "table_boundaries (context_step text st m) = table_boundaries (update_scale text (m_start m) st)"
    and "current_scale (context_step text st m) = current_scale (update_scale text (m_start m) st)"
    and "last_boundary (context_step text st m) = last_boundary (update_scale text (m_start m) st)"
    and "numbers (context_step text st m) = numbers st @
           [(v, apply_scale_word (group m 2) (v * current_scale (update_scale text (m_start m) st)),
             word_or_na (group m 2), m_start m)]"
  using assms by (simp_all add: context_step_def Let_def update_scale_numbers)

lemma state_after_Suc:
  assumes "k < length (context_matches text)"
  shows "state_after text (Suc k) = context_step text (state_after text k) (context_matches text ! k)"
  using assms by (simp add: state_after_def take_Suc_conv_app_nth)

lemma update_scale_cases:
  assumes "table_boundaries st = drop c bs" and "c \<le> length bs"
  shows "c < length bs \<and> bs ! c < pos \<Longrightarrow>
           update_scale text pos st =
             st\<lparr>current_scale := extract_scale_factor (slice text (last_boundary st) pos),
                last_boundary := bs ! c, table_boundaries := drop (Suc c) bs\<rparr>"
    and "\<not> (c < length bs \<and> bs ! c < pos) \<Longrightarrow> update_scale text pos st = st"
proof -
  show "c < length bs \<and> bs ! c < pos \<Longrightarrow>
           update_scale text pos st =
             st\<lparr>current_scale := extract_scale_factor (slice text (last_boundary st) pos),
                last_boundary := bs ! c, table_boundaries := drop (Suc c) bs\<rparr>"
  proof -
    assume h: "c < length bs \<and> bs ! c < pos"
    then have "table_boundaries st = bs ! c # drop (Suc c) bs"
      using assms(1) by (simp add: Cons_nth_drop_Suc)
    with h show ?thesis by (simp add: update_scale_def)
  qed
  show "\<not> (c < length bs \<and> bs ! c < pos) \<Longrightarrow> update_scale text pos st = st"
  proof -
    assume h: "\<not> (c < length bs \<and> bs ! c < pos)"
    show ?thesis
    proof (cases "c < length bs")
      case True
      then have "table_boundaries st = bs ! c # drop (Suc c) bs"
        using assms(1) by (simp add: Cons_nth_drop_Suc)
      with h True show ?thesis by (simp add: update_scale_def)
    next
      case False
      then have "table_boundaries st = []" using assms by simp
      then show ?thesis by (simp add: update_scale_def)
    qed
  qed
qed

lemma match_converts_nth:
  assumes "k < length (context_matches text)"
  shows "\<exists>v. py_float (remove_commas (group1 (context_matches text ! k))) = Inr v"
  using assms context_match_converts [of "context_matches text ! k" "text"] by simp

lemma pending_suffix:
  "k \<le> length (context_matches text) \<Longrightarrow>
   \<exists>c\<le>length (detect_table_boundaries text).
     table_boundaries (state_after text k) = drop c (detect_table_boundaries text)"
proof (induction k)
  case 0
  have "table_boundaries (state_after text 0) = drop 0 (detect_table_boundaries text)"
    by (simp add: state_after_def initial_state_def)
  then show ?case by blast
next
  case (Suc k)
  then have k: "k < length (context_matches text)" by simp
  from Suc obtain c where c: "c \<le> length (detect_table_boundaries text)"
    "table_boundaries (state_after text k) = drop c (detect_table_boundaries text)"
    by auto
  from match_converts_nth [OF k] obtain v where
    v: "py_float (remove_commas (group1 (context_matches text ! k))) = Inr v" by blast
  define pos where "pos = m_start (context_matches text ! k)"
  have tb: "table_boundaries (state_after text (Suc k))
      = table_boundaries (update_scale text pos (state_after text k))"
    by (simp add: state_after_Suc [OF k] context_step_fields(1) [OF v] pos_def)
  show ?case
  proof (cases "c < length (detect_table_boundaries text) \<and> detect_table_boundaries text ! c < pos")
    case True
    from update_scale_cases(1) [OF c(2) c(1) True, of "text"]
    have "table_boundaries (update_scale text pos (state_after text k))
        = drop (Suc c) (detect_table_boundaries text)" by simp
    with tb True show ?thesis by (intro exI [of _ "Suc c"]) simp
  next
    case False
    from update_scale_cases(2) [OF c(2) c(1) False, of "text"]
    have "table_boundaries (update_scale text pos (state_after text k))
        = drop c (detect_table_boundaries text)" using c(2) by simp
    with tb c(1) show ?thesis by (intro exI [of _ c]) simp
  qed
qed

lemma pending_consumed:
  assumes "k \<le> length (context_matches text)"
  shows "consumed text k \<le> length (detect_table_boundaries text)"
    and "table_boundaries (state_after text k) = drop (consumed text k) (detect_table_boundaries text)"
proof -
  from pending_suffix [OF assms] obtain c where c: "c \<le> length (detect_table_boundaries text)"
    "table_boundaries (state_after text k) = drop c (detect_table_boundaries text)" by blast
  then have "consumed text k = c" by (simp add: consumed_def)
  with c show "consumed text k \<le> length (detect_table_boundaries text)"
    and "table_boundaries (state_after text k) = drop (consumed text k) (detect_table_boundaries text)"
    by simp_all
qed

lemma consume_step:
  assumes k: "k < length (context_matches text)"
  shows "consumed text k < length (detect_table_boundaries text)
           \<and> detect_table_boundaries text ! consumed text k < m_start (context_matches text ! k) \<Longrightarrow>
         consumed text (Suc k) = Suc (consumed text k)
         \<and> current_scale (state_after text (Suc k)) =
             extract_scale_factor (slice text (last_boundary (state_after text k))
                                              (m_start (context_matches text ! k)))
         \<and> last_boundary (state_after text (Suc k)) = detect_table_boundaries text ! consumed text k"
    and "\<not> (consumed text k < length (detect_table_boundaries text)
           \<and> detect_table_boundaries text ! consumed text k < m_start (context_matches text ! k)) \<Longrightarrow>
         consumed text (Suc k) = consumed text k
         \<and> current_scale (state_after text (Suc k)) = current_scale (state_after text k)
         \<and> last_boundary (state_after text (Suc k)) = last_boundary (state_after text k)"
    and "\<exists>v. py_float (remove_commas (group1 (context_matches text ! k))) = Inr v
         \<and> numbers (state_after text (Suc k)) = numbers (state_after text k) @
             [(v, apply_scale_word (group (context_matches text ! k) 2)
                    (v * current_scale (state_after text (Suc k))),
               word_or_na (group (context_matches text ! k) 2),
               m_start (context_matches text ! k))]"
proof -
  define bs where "bs = detect_table_boundaries text"
  define st where "st = state_after text k"
  define m where "m = context_matches text ! k"
  define c where "c = consumed text k"
  from k have kle: "k \<le> length (context_matches text)" by simp
  have c: "c \<le> length bs" "table_boundaries st = drop c bs"
    using pending_consumed [OF kle] by (simp_all add: c_def bs_def st_def)
  from match_converts_nth [OF k] obtain v where
    v: "py_float (remove_commas (group1 m)) = Inr v" unfolding m_def by blast
  have nxt: "state_after text (Suc k) = context_step text st m"
    by (simp add: state_after_Suc [OF k] st_def m_def)
  have cons: "consumed text (Suc k) = length bs - length (table_boundaries (update_scale text (m_start m) st))"
    by (simp add: consumed_def nxt context_step_fields(1) [OF v] bs_def)
  have cs: "current_scale (state_after text (Suc k)) = current_scale (update_scale text (m_start m) st)"
    by (simp add: nxt context_step_fields(2) [OF v])
  have lb: "last_boundary (state_after text (Suc k)) = last_boundary (update_scale text (m_start m) st)"
    by (simp add: nxt context_step_fields(3) [OF v])
  have nm: "numbers (state_after text (Suc k)) = numbers st @
      [(v, apply_scale_word (group m 2) (v * current_scale (state_after text (Suc k))),
        word_or_na (group m 2), m_start m)]"
    unfolding cs by (simp add: nxt context_step_fields(4) [OF v])
  show "consumed text k < length (detect_table_boundaries text)
           \<and> detect_table_boundaries text ! consumed text k < m_start (context_matches text ! k) \<Longrightarrow>
         consumed text (Suc k) = Suc (consumed text k)
         \<and> current_scale (state_after text (Suc k)) =
             extract_scale_factor (slice text (last_boundary (state_after text k))
                                              (m_start (context_matches text ! k)))
         \<and> last_boundary (state_after text (Suc k)) = detect_table_boundaries text ! consumed text k"
  proof -
    assume "consumed text k < length (detect_table_boundaries text)
           \<and> detect_table_boundaries text ! consumed text k < m_start (context_matches text ! k)"
    then have h: "c < length bs \<and> bs ! c < m_start m" by (simp add: c_def bs_def m_def)
    from update_scale_cases(1) [OF c(2) c(1) h, of "text"]
    have u: "update_scale text (m_start m) st =
             st\<lparr>current_scale := extract_scale_factor (slice text (last_boundary st) (m_start m)),
                last_boundary := bs ! c, table_boundaries := drop (Suc c) bs\<rparr>" .
    have "consumed text (Suc k) = Suc c" using h by (simp add: cons u)
    moreover have "current_scale (state_after text (Suc k)) =
        extract_scale_factor (slice text (last_boundary st) (m_start m))" by (simp add: cs u)
    moreover have "last_boundary (state_after text (Suc k)) = bs ! c" by (simp add: lb u)
    ultimately show ?thesis by (simp add: c_def bs_def m_def st_def)
  qed
  show "\<not> (consumed text k < length (detect_table_boundaries text)
           \<and> detect_table_boundaries text ! consumed text k < m_start (context_matches text ! k)) \<Longrightarrow>
         consumed text (Suc k) = consumed text k
         \<and> current_scale (state_after text (Suc k)) = current_scale (state_after text k)
         \<and> last_boundary (state_after text (Suc k)) = last_boundary (state_after text k)"
  proof -
    assume "\<not> (consumed text k < length (detect_table_boundaries text)
           \<and> detect_table_boundaries text ! consumed text k < m_start (context_matches text ! k))"
    then have h: "\<not> (c < length bs \<and> bs ! c < m_start m)" by (simp add: c_def bs_def m_def)
    from update_scale_cases(2) [OF c(2) c(1) h, of "text"]
    have u: "update_scale text (m_start m) st = st" .
    have "consumed text (Suc k) = c" using c by (simp add: cons u)
    moreover have "current_scale (state_after text (Suc k)) = current_scale st"
      by (simp add: cs u)
    moreover have "last_boundary (state_after text (Suc k)) = last_boundary st"
      by (simp add: lb u)
    ultimately show ?thesis by (simp add: c_def st_def)
  qed
  show "\<exists>v. py_float (remove_commas (group1 (context_matches text ! k))) = Inr v
         \<and> numbers (state_after text (Suc k)) = numbers (state_after text k) @
             [(v, apply_scale_word (group (context_matches text ! k) 2)
                    (v * current_scale (state_after text (Suc k))),
               word_or_na (group (context_matches text ! k) 2),
               m_start (context_matches text ! k))]"
    using v nm unfolding m_def st_def by blast
qed

lemma consumed_Suc: "k < length (context_matches text) \<Longrightarrow> consumed text k \<le> consumed text (Suc k)"
  using consume_step(1) [of k "text"] consume_step(2) [of k "text"] by (metis le_SucI order_refl)

lemma consumed_mono:
  "j \<le> k \<Longrightarrow> k \<le> length (context_matches text) \<Longrightarrow> consumed text j \<le> consumed text k"
proof (induction k)
  case 0
  then show ?case by simp
next
  case (Suc k)
  show ?case
  proof (cases "j = Suc k")
    case True
    then show ?thesis by simp
  next
    case False
    with Suc.prems have "j \<le> k" "k \<le> length (context_matches text)" by simp_all
    then have "consumed text j \<le> consumed text k" by (rule Suc.IH)
    moreover have "consumed text k \<le> consumed text (Suc k)"
      using Suc.prems by (intro consumed_Suc) simp
    ultimately show ?thesis by simp
  qed
qed

lemma boundaries_ascending: "sorted_wrt (<) (detect_table_boundaries text)"
  using finditer_from_sorted [of boundary_rx 0 "text"]
  by (simp add: detect_table_boundaries_def finditer_def)

lemma matches_ascending: "sorted_wrt (<) (map m_start (context_matches text))"
  using finditer_from_sorted [of context_rx 0 "lower text"]
  by (simp add: context_matches_def finditer_def)

lemma result_is_last_state:
  "extract_numbers_with_context text = numbers (state_after text (length (context_matches text)))"
  by (simp add: extract_numbers_with_context_def state_after_def)

text \<open>
  Claim C3 says that every boundary is consumed exactly once. On the page
  \<open>two_boundaries_text\<close> both boundaries, 0 and 14, lie before the only number, at 29: the
  match consumes the boundary 0, and the boundary 14 is still pending when the loop ends.
\<close>

theorem boundary_never_consumed_counterexample:
  "detect_table_boundaries two_boundaries_text = [0, 14]
   \<and> map m_start (context_matches two_boundaries_text) = [29]
   \<and> table_boundaries (state_after two_boundaries_text 1) = [14]
   \<and> consumed two_boundaries_text 1 = 1
   \<and> extract_numbers_with_context two_boundaries_text = [(5, 5, ''N/A'', 29)]"
  by code_simp

text \<open>
  Claim C3 as amended: the boundaries and the positions of the matches are in ascending
  order. After any number of matches the pending boundaries are the detected ones without
  the first \<open>consumed\<close> of them, so the boundaries are consumed from the first on, each at
  most once. A match consumes the first pending boundary when there is one and the match
  starts after it, and only that one, whatever lies behind the match; the scale then
  becomes that of the scale resolver on the text from the last boundary to the position of
  the match, and the last boundary becomes the consumed one. Otherwise the match consumes
  nothing and leaves scale and last boundary as they were. Every match adds one record,
  scaled by the scale after this step. The number of consumed boundaries never decreases
  from one match to a later one.
\<close>

theorem boundaries_consumed_in_order:
  "sorted_wrt (<) (detect_table_boundaries text)
   \<and> sorted_wrt (<) (map m_start (context_matches text))
   \<and> consumed text 0 = 0
   \<and> extract_numbers_with_context text = numbers (state_after text (length (context_matches text)))
   \<and> (\<forall>k\<le>length (context_matches text).
         consumed text k \<le> length (detect_table_boundaries text)
         \<and> table_boundaries (state_after text k) =
             drop (consumed text k) (detect_table_boundaries text))
   \<and> (\<forall>k<length (context_matches text).
         (consumed text k < length (detect_table_boundaries text)
            \<and> detect_table_boundaries text ! consumed text k < m_start (context_matches text ! k) \<longrightarrow>
          consumed text (Suc k) = Suc (consumed text k)
          \<and> current_scale (state_after text (Suc k)) =
              extract_scale_factor (slice text (last_boundary (state_after text k))
                                               (m_start (context_matches text ! k)))
          \<and> last_boundary (state_after text (Suc k)) =
              detect_table_boundaries text ! consumed text k)
         \<and> (\<not> (consumed text k < length (detect_table_boundaries text)
            \<and> detect_table_boundaries text ! consumed text k < m_start (context_matches text ! k)) \<longrightarrow>
          consumed text (Suc k) = consumed text k
          \<and> current_scale (state_after text (Suc k)) = current_scale (state_after text k)
          \<and> last_boundary (state_after text (Suc k)) = last_boundary (state_after text k)))
   \<and> (\<forall>k<length (context_matches text).
         \<exists>v. py_float (remove_commas (group1 (context_matches text ! k))) = Inr v
         \<and> numbers (state_after text (Suc k)) = numbers (state_after text k) @
             [(v, apply_scale_word (group (context_matches text ! k) 2)
                    (v * current_scale (state_after text (Suc k))),
               word_or_na (group (context_matches text ! k) 2),
               m_start (context_matches text ! k))])
   \<and> (\<forall>j k. j \<le> k \<and> k \<le> length (context_matches text) \<longrightarrow>
         consumed text j \<le> consumed text k)"
proof (intro conjI allI impI)
  show "sorted_wrt (<) (detect_table_boundaries text)" by (rule boundaries_ascending)
  show "sorted_wrt (<) (map m_start (context_matches text))" by (rule matches_ascending)
  show "consumed text 0 = 0" by (simp add: consumed_def state_after_def initial_state_def)
  show "extract_numbers_with_context text = numbers (state_after text (length (context_matches text)))"
    by (rule result_is_last_state)
next
  fix k assume "k \<le> length (context_matches text)"
  then show "consumed text k \<le> length (detect_table_boundaries text)"
    and "table_boundaries (state_after text k) = drop (consumed text k) (detect_table_boundaries text)"
    by (rule pending_consumed)+
next
  fix k assume k: "k < length (context_matches text)"
  assume h: "consumed text k < length (detect_table_boundaries text)
            \<and> detect_table_boundaries text ! consumed text k < m_start (context_matches text ! k)"
  from consume_step(1) [OF k h]
  show "consumed text (Suc k) = Suc (consumed text k)"
    and "current_scale (state_after text (Suc k)) =
              extract_scale_factor (slice text (last_boundary (state_after text k))
                                               (m_start (context_matches text ! k)))"
    and "last_boundary (state_after text (Suc k)) = detect_table_boundaries text ! consumed text k"
    by blast+
next
  fix k assume k: "k < length (context_matches text)"
  assume h: "\<not> (consumed text k < length (detect_table_boundaries text)
            \<and> detect_table_boundaries text ! consumed text k < m_start (context_matches text ! k))"
  from consume_step(2) [OF k h]
  show "consumed text (Suc k) = consumed text k"
    and "current_scale (state_after text (Suc k)) = current_scale (state_after text k)"
    and "last_boundary (state_after text (Suc k)) = last_boundary (state_after text k)"
    by blast+
next
  fix k assume k: "k < length (context_matches text)"
  then show "\<exists>v. py_float (remove_commas (group1 (context_matches text ! k))) = Inr v
         \<and> numbers (state_after text (Suc k)) = numbers (state_after text k) @
             [(v, apply_scale_word (group (context_matches text ! k) 2)
                    (v * current_scale (state_after text (Suc k))),
               word_or_na (group (context_matches text ! k) 2),
               m_start (context_matches text ! k))]"
    by (rule consume_step(3))
next
  fix j k assume "j \<le> k \<and> k \<le> length (context_matches text)"
  then show "consumed text j \<le> consumed text k" using consumed_mono by blast
qed

theorem boundaries_consumed_in_order_witness:
  "length (context_matches tables_text) = 3
   \<and> detect_table_boundaries tables_text = [11, 25]
   \<and> map m_start (context_matches tables_text) = [40, 44, 48]
   \<and> consumed tables_text 1 = 1
   \<and> current_scale (state_after tables_text 1) = 10 ^ 6
   \<and> last_boundary (state_after tables_text 1) = 11
   \<and> consumed tables_text 2 = 2
   \<and> consumed tables_text 3 = 2
   \<and> current_scale (state_after tables_text 3) = current_scale (state_after tables_text 2)
   \<and> extract_numbers_with_context tables_text =
       [(1, 10 ^ 6, ''x'', 40), (3, 3, ''y'', 44), (4, 4, ''N/A'', 48)]"
proof -
  have l: "length (context_matches tables_text) = 3" by code_simp
  have b: "detect_table_boundaries tables_text = [11, 25]" by code_simp
  have p: "map m_start (context_matches tables_text) = [40, 44, 48]" by code_simp
  have p0: "m_start (context_matches tables_text ! 0) = 40"
    using p l by (metis nth_map nth_Cons_0 zero_less_numeral)
  have p1: "m_start (context_matches tables_text ! 1) = 44"
    using nth_map [of 1 "context_matches tables_text" m_start] p l by simp
  have l0: "last_boundary (state_after tables_text 0) = 0"
    by (simp add: state_after_def initial_state_def)
  have e: "extract_scale_factor (slice tables_text 0 40) = 10 ^ 6" by code_simp
  have r: "extract_numbers_with_context tables_text =
       [(1, 10 ^ 6, ''x'', 40), (3, 3, ''y'', 44), (4, 4, ''N/A'', 48)]" by code_simp
  note t = boundaries_consumed_in_order [of tables_text]
  from t have c0: "consumed tables_text 0 = 0" by blast
  from t have step: "\<And>k. k < length (context_matches tables_text) \<Longrightarrow>
         (consumed tables_text k < length (detect_table_boundaries tables_text)
            \<and> detect_table_boundaries tables_text ! consumed tables_text k
                < m_start (context_matches tables_text ! k) \<longrightarrow>
          consumed tables_text (Suc k) = Suc (consumed tables_text k)
          \<and> current_scale (state_after tables_text (Suc k)) =
              extract_scale_factor (slice tables_text (last_boundary (state_after tables_text k))
                                               (m_start (context_matches tables_text ! k)))
          \<and> last_boundary (state_after tables_text (Suc k)) =
              detect_table_boundaries tables_text ! consumed tables_text k)
         \<and> (\<not> (consumed tables_text k < length (detect_table_boundaries tables_text)
            \<and> detect_table_boundaries tables_text ! consumed tables_text k
                < m_start (context_matches tables_text ! k)) \<longrightarrow>
          consumed tables_text (Suc k) = consumed tables_text k
          \<and> current_scale (state_after tables_text (Suc k)) = current_scale (state_after tables_text k)
          \<and> last_boundary (state_after tables_text (Suc k)) = last_boundary (state_after tables_text k))"
    by blast
  have s0: "consumed tables_text (Suc 0) = Suc 0
      \<and> current_scale (state_after tables_text (Suc 0)) = 10 ^ 6
      \<and> last_boundary (state_after tables_text (Suc 0)) = 11"
    using step [of 0] l b c0 p0 l0 e by simp
  have s1: "consumed tables_text (Suc (Suc 0)) = Suc (Suc 0)"
    using step [of "Suc 0"] l b s0 p1 by simp
  have s2: "consumed tables_text (Suc (Suc (Suc 0))) = Suc (Suc 0)
      \<and> current_scale (state_after tables_text (Suc (Suc (Suc 0))))
          = current_scale (state_after tables_text (Suc (Suc 0)))"
    using step [of "Suc (Suc 0)"] l b s1 by simp
  have n: "(1::nat) = Suc 0" "(2::nat) = Suc (Suc 0)" "(3::nat) = Suc (Suc (Suc 0))" by simp_all
  from l b p r s0 s1 s2 show ?thesis unfolding n by (intro conjI) simp_all
qed

end
